theory Spec2Isabelle
  imports Complex_Main "HOL-Library.Word"
begin

section \<open>Strings of the JavaScript runtime\<close>

text \<open>
  A JavaScript string is a sequence of 16-bit code units. Literals of the source are
  written with \<open>str\<close>, which maps each ASCII character to its code unit.
\<close>

type_synonym code_unit = "16 word"
type_synonym jsstring = "code_unit list"

definition str :: "string \<Rightarrow> jsstring" where
  "str s = map of_char s"

definition TAB :: code_unit where "TAB = 0x09"
definition LF :: code_unit where "LF = 0x0A"
definition CR :: code_unit where "CR = 0x0D"

text \<open>
  \<open>String.prototype.trim\<close> removes the code points WhiteSpace and LineTerminator of
  ECMAScript from both ends. All of them lie in the basic plane, so the test is on single
  code units.
\<close>

definition is_white_space :: "code_unit \<Rightarrow> bool" where
  "is_white_space c \<longleftrightarrow>
     c = 0x09 \<or> c = 0x0A \<or> c = 0x0B \<or> c = 0x0C \<or> c = 0x0D \<or> c = 0x20 \<or> c = 0xA0 \<or>
     c = 0x1680 \<or> (0x2000 \<le> c \<and> c \<le> 0x200A) \<or> c = 0x2028 \<or> c = 0x2029 \<or>
     c = 0x202F \<or> c = 0x205F \<or> c = 0x3000 \<or> c = 0xFEFF"

definition trim :: "jsstring \<Rightarrow> jsstring" where
  "trim s = rev (dropWhile is_white_space (rev (dropWhile is_white_space s)))"

text \<open>
  \<open>s.split(sep)\<close> for a separator of one code unit: the pieces between the separators,
  always at least one piece (\<open>"".split("\t")\<close> is \<open>[""]\<close>).
\<close>

fun split_on :: "code_unit \<Rightarrow> jsstring \<Rightarrow> jsstring list" where
  "split_on sep [] = [[]]"
| "split_on sep (c # cs) =
     (if c = sep then [] # split_on sep cs
      else (case split_on sep cs of [] \<Rightarrow> [[c]] | f # fs \<Rightarrow> (c # f) # fs))"

text \<open>\<open>line.replace(/\r/g, "")\<close>: the global flag deletes every match.\<close>

definition remove_cr :: "jsstring \<Rightarrow> jsstring" where
  "remove_cr line = filter (\<lambda>c. c \<noteq> CR) line"

text \<open>
  \<open>String.prototype.toUpperCase\<close> applies the Unicode upper-case mapping of the engine.
  Its table is not part of the repository, so the parser takes it as the parameter \<open>up\<close>.
  \<open>ascii_upper\<close> is what it does on ASCII text; it is used to run the parser on examples.
\<close>

definition ascii_upper_unit :: "code_unit \<Rightarrow> code_unit" where
  "ascii_upper_unit c = (if 0x61 \<le> c \<and> c \<le> 0x7A then c - 0x20 else c)"

definition ascii_upper :: "jsstring \<Rightarrow> jsstring" where
  "ascii_upper s = map ascii_upper_unit s"


section \<open>The Tabular Parser\<close>

text \<open>
  An entry is the two-element array \<open>[value1, value2]\<close> (note, value) that the parser
  pushes. An index is the object \<open>out\<close>: its own properties in the order of their
  creation, each a key with the array of its entries. Every key the parser creates has
  two code units, and no property of \<open>Object.prototype\<close> has a name that short, so
  \<open>out[key]\<close> is the own property or \<open>undefined\<close>.
\<close>

type_synonym entry = "jsstring \<times> jsstring"
type_synonym index = "(jsstring \<times> entry list) list"

definition get_entries :: "index \<Rightarrow> jsstring \<Rightarrow> entry list option" where
  "get_entries out key = map_of out key"

text \<open>\<open>if (!out[key]) out[key] = [];\<close> An array is truthy, also when it is empty.\<close>

definition ensure_key :: "jsstring \<Rightarrow> index \<Rightarrow> index" where
  "ensure_key key out = (case get_entries out key of None \<Rightarrow> out @ [(key, [])] | Some _ \<Rightarrow> out)"

text \<open>\<open>out[key].push([value1, value2])\<close>\<close>

definition push_entry :: "jsstring \<Rightarrow> entry \<Rightarrow> index \<Rightarrow> index" where
  "push_entry key e out = map (\<lambda>(k, es). if k = key then (k, es @ [e]) else (k, es)) out"

text \<open>\<open>cols\<close> of one line: carriage returns deleted, then split at the tabs.\<close>

definition line_cols :: "jsstring \<Rightarrow> jsstring list" where
  "line_cols line = split_on TAB (remove_cr line)"

text \<open>The assignments to \<open>value1\<close>, \<open>key\<close> and \<open>value2\<close> (lines 156 to 168).\<close>

definition pick_fields :: "(jsstring \<Rightarrow> jsstring) \<Rightarrow> jsstring list \<Rightarrow> jsstring \<times> jsstring \<times> jsstring" where
  "pick_fields up cols =
     (if length cols \<ge> 3 then (trim (cols ! 0), up (trim (cols ! 1)), trim (cols ! 2))
      else if length cols = 2 then ([], up (trim (cols ! 0)), trim (cols ! 1))
      else ([], [], []))"

text \<open>The body of the loop over the lines; \<open>continue\<close> leaves \<open>out\<close> as it is.\<close>

definition parseTSV_line :: "(jsstring \<Rightarrow> jsstring) \<Rightarrow> index \<Rightarrow> jsstring \<Rightarrow> index" where
  "parseTSV_line up out line0 =
     (let line = remove_cr line0 in
      if trim line = [] then out
      else let cols = split_on TAB line in
        if length cols < 2 then out
        else case pick_fields up cols of (value1, key, value2) \<Rightarrow>
          if key = [] \<or> length key \<noteq> 2 then out
          else if value2 = [] then out
          else push_entry key (value1, value2) (ensure_key key out))"

fun parseTSV_loop :: "(jsstring \<Rightarrow> jsstring) \<Rightarrow> index \<Rightarrow> jsstring list \<Rightarrow> index" where
  "parseTSV_loop up out [] = out"
| "parseTSV_loop up out (line # lines) = parseTSV_loop up (parseTSV_line up out line) lines"

definition parseTSV :: "(jsstring \<Rightarrow> jsstring) \<Rightarrow> jsstring \<Rightarrow> index" where
  "parseTSV up text = parseTSV_loop up [] (split_on LF text)"

text \<open>
  The spec's reading of the carriage-return rule, for comparison with \<open>remove_cr\<close>: only
  a carriage return that ends the line is stripped.
\<close>

definition strip_trailing_cr :: "jsstring \<Rightarrow> jsstring" where
  "strip_trailing_cr line = (if line \<noteq> [] \<and> last line = CR then butlast line else line)"


section \<open>Values of the runtime and JSON\<close>

text \<open>
  The values that \<open>JSON.parse\<close> can return, and \<open>undefined\<close>. A number is carried as the
  exact value of its literal; the only test the program makes on a number is whether it is
  zero, and \<open>num_is_zero\<close> decides that for the double the literal is rounded to: a double
  is zero exactly when the value is at most half of the least positive double, 2^-1074. An
  object is the list of its own properties in the order of their creation (the place an
  engine gives to keys that look like array indices is not modelled); its prototype is
  \<open>Object.prototype\<close>, as for every object that \<open>{}\<close> or \<open>JSON.parse\<close> creates.

  \<open>JBuiltin\<close> stands for an object of the runtime that no JSON text denotes and that the
  program can only meet as an inherited member of its data: a built-in function, known by
  the number of its parameters (its \<open>length\<close>), or one of the prototype objects, which
  the accessor \<open>__proto__\<close> gives. \<open>Array.prototype\<close> is itself an empty array and
  \<open>String.prototype\<close> an empty string object: both have the \<open>length\<close> 0 and can be
  iterated. All of them are truthy.
\<close>

datatype builtin =
    Function nat
  | ObjectPrototype
  | ArrayPrototype
  | StringPrototype
  | NumberPrototype
  | BooleanPrototype


datatype jsvalue =
    JUndefined
  | JNull
  | JBool bool
  | JNum rat
  | JStr jsstring
  | JArr "jsvalue list"
  | JObj "(jsstring \<times> jsvalue) list"
  | JBuiltin builtin

definition num_is_zero :: "rat \<Rightarrow> bool" where
  "num_is_zero r \<longleftrightarrow> \<bar>r\<bar> * 2 ^ 1075 \<le> 1"

text \<open>ToBoolean, as \<open>if (cache)\<close> and \<open>!data[key]\<close> apply it.\<close>

fun truthy :: "jsvalue \<Rightarrow> bool" where
  "truthy JUndefined = False"
| "truthy JNull = False"
| "truthy (JBool b) = b"
| "truthy (JNum r) = (\<not> num_is_zero r)"
| "truthy (JStr s) = (s \<noteq> [])"
| "truthy (JArr xs) = True"
| "truthy (JObj ps) = True"
| "truthy (JBuiltin b) = True"

text \<open>The array \<open>[value1, value2]\<close> and the object \<open>out\<close> as values.\<close>

definition entry_to_js :: "entry \<Rightarrow> jsvalue" where
  "entry_to_js e = JArr [JStr (fst e), JStr (snd e)]"

definition index_to_js :: "index \<Rightarrow> jsvalue" where
  "index_to_js idx = JObj (map (\<lambda>(k, es). (k, JArr (map entry_to_js es))) idx)"

subsection \<open>JSON.parse\<close>

definition is_json_ws :: "code_unit \<Rightarrow> bool" where
  "is_json_ws c \<longleftrightarrow> c = 0x09 \<or> c = 0x0A \<or> c = 0x0D \<or> c = 0x20"

definition skip_ws :: "jsstring \<Rightarrow> jsstring" where
  "skip_ws s = dropWhile is_json_ws s"

definition is_digit :: "code_unit \<Rightarrow> bool" where
  "is_digit c \<longleftrightarrow> 0x30 \<le> c \<and> c \<le> 0x39"

definition digit_val :: "code_unit \<Rightarrow> nat" where
  "digit_val c = unat c - 48"

definition digits_val :: "jsstring \<Rightarrow> nat" where
  "digits_val ds = foldl (\<lambda>a d. 10 * a + digit_val d) 0 ds"

definition hex_val :: "code_unit \<Rightarrow> nat option" where
  "hex_val c =
     (if 0x30 \<le> c \<and> c \<le> 0x39 then Some (unat c - 48)
      else if 0x61 \<le> c \<and> c \<le> 0x66 then Some (unat c - 87)
      else if 0x41 \<le> c \<and> c \<le> 0x46 then Some (unat c - 55)
      else None)"

text \<open>The one-letter escapes: quote, backslash, slash, b, f, n, r, t.\<close>

definition unescape :: "code_unit \<Rightarrow> code_unit option" where
  "unescape e =
     (if e = 0x22 then Some 0x22 else if e = 0x5C then Some 0x5C
      else if e = 0x2F then Some 0x2F else if e = 0x62 then Some 0x08
      else if e = 0x66 then Some 0x0C else if e = 0x6E then Some 0x0A
      else if e = 0x72 then Some 0x0D else if e = 0x74 then Some 0x09
      else None)"

text \<open>
  The characters of a string after its opening quote, up to the closing quote: the decoded
  string and the rest of the input.
\<close>

fun parse_string_body :: "jsstring \<Rightarrow> (jsstring \<times> jsstring) option" where
  "parse_string_body [] = None"
| "parse_string_body (c # r) =
     (if c = 0x22 then Some ([], r)
      else if c = 0x5C then
        (case r of
           [] \<Rightarrow> None
         | e # r1 \<Rightarrow>
             if e = 0x75 then
               (case r1 of
                  h1 # h2 # h3 # h4 # r2 \<Rightarrow>
                    (case (hex_val h1, hex_val h2, hex_val h3, hex_val h4) of
                       (Some n1, Some n2, Some n3, Some n4) \<Rightarrow>
                         (case parse_string_body r2 of
                            None \<Rightarrow> None
                          | Some (t, rest) \<Rightarrow>
                              Some (of_nat (4096 * n1 + 256 * n2 + 16 * n3 + n4) # t, rest))
                     | _ \<Rightarrow> None)
                | _ \<Rightarrow> None)
             else
               (case unescape e of
                  None \<Rightarrow> None
                | Some u \<Rightarrow>
                    (case parse_string_body r1 of
                       None \<Rightarrow> None
                     | Some (t, rest) \<Rightarrow> Some (u # t, rest))))
      else if c < 0x20 then None
      else (case parse_string_body r of
              None \<Rightarrow> None
            | Some (t, rest) \<Rightarrow> Some (c # t, rest)))"

text \<open>Numbers: sign, integer part without leading zeros, fraction, exponent.\<close>

definition num_value :: "bool \<Rightarrow> nat \<Rightarrow> int \<Rightarrow> rat" where
  "num_value neg m e =
     (if neg then - 1 else 1) * of_nat m * (if 0 \<le> e then 10 ^ nat e else 1 / 10 ^ nat (- e))"

definition parse_sign :: "jsstring \<Rightarrow> bool \<times> jsstring" where
  "parse_sign s = (case s of [] \<Rightarrow> (False, []) | c # r \<Rightarrow> if c = 0x2D then (True, r) else (False, s))"

definition parse_int_part :: "jsstring \<Rightarrow> (jsstring \<times> jsstring) option" where
  "parse_int_part s =
     (case takeWhile is_digit s of
        [] \<Rightarrow> None
      | d # ds \<Rightarrow> if d = 0x30 \<and> ds \<noteq> [] then None else Some (d # ds, dropWhile is_digit s))"

definition parse_frac :: "jsstring \<Rightarrow> (jsstring \<times> jsstring) option" where
  "parse_frac s =
     (case s of
        [] \<Rightarrow> Some ([], [])
      | c # r \<Rightarrow>
          if c = 0x2E then
            (if takeWhile is_digit r = [] then None
             else Some (takeWhile is_digit r, dropWhile is_digit r))
          else Some ([], s))"

definition parse_exp_sign :: "jsstring \<Rightarrow> bool \<times> jsstring" where
  "parse_exp_sign s =
     (case s of
        [] \<Rightarrow> (False, [])
      | c # r \<Rightarrow> if c = 0x2D then (True, r) else if c = 0x2B then (False, r) else (False, s))"

definition parse_exp :: "jsstring \<Rightarrow> (int \<times> jsstring) option" where
  "parse_exp s =
     (case s of
        [] \<Rightarrow> Some (0, [])
      | c # r \<Rightarrow>
          if c = 0x65 \<or> c = 0x45 then
            (case parse_exp_sign r of
               (neg, r1) \<Rightarrow>
                 if takeWhile is_digit r1 = [] then None
                 else Some ((if neg then - int (digits_val (takeWhile is_digit r1))
                             else int (digits_val (takeWhile is_digit r1))),
                            dropWhile is_digit r1))
          else Some (0, s))"

definition parse_number :: "jsstring \<Rightarrow> (rat \<times> jsstring) option" where
  "parse_number s =
     (case parse_sign s of
        (neg, s1) \<Rightarrow>
          (case parse_int_part s1 of
             None \<Rightarrow> None
           | Some (ds, s2) \<Rightarrow>
               (case parse_frac s2 of
                  None \<Rightarrow> None
                | Some (fs, s3) \<Rightarrow>
                    (case parse_exp s3 of
                       None \<Rightarrow> None
                     | Some (e, s4) \<Rightarrow>
                         Some (num_value neg (digits_val (ds @ fs)) (e - int (length fs)), s4)))))"

text \<open>
  CreateDataProperty on a plain object: a key that is there keeps its place and takes the
  new value (the last of two equal keys in a JSON text wins); a new key goes to the end.
\<close>

definition obj_put :: "jsstring \<Rightarrow> jsvalue \<Rightarrow> (jsstring \<times> jsvalue) list \<Rightarrow> (jsstring \<times> jsvalue) list" where
  "obj_put k v ps =
     (if k \<in> set (map fst ps) then map (\<lambda>(k', v'). if k' = k then (k', v) else (k', v')) ps
      else ps @ [(k, v)])"

text \<open>
  The grammar of values by recursive descent. Each function returns the value read and the
  rest of the input. \<open>parse_elements\<close> reads the elements of an array after its bracket,
  \<open>parse_members\<close> the members of an object after its brace. The tests
  \<open>length r < length s\<close> before the calls on a rest are there for the termination proof
  only: they always hold, and \<open>parse_elements_unguarded\<close> and \<open>parse_members_unguarded\<close>
  below are the same equations without them.
\<close>

function parse_value :: "jsstring \<Rightarrow> (jsvalue \<times> jsstring) option"
  and parse_elements :: "jsvalue list \<Rightarrow> jsstring \<Rightarrow> (jsvalue \<times> jsstring) option"
  and parse_members :: "(jsstring \<times> jsvalue) list \<Rightarrow> jsstring \<Rightarrow> (jsvalue \<times> jsstring) option"
where
  "parse_value s =
     (case skip_ws s of
        [] \<Rightarrow> None
      | c # r \<Rightarrow>
          if c = 0x5B then
            (case skip_ws r of
               [] \<Rightarrow> None
             | d # r1 \<Rightarrow> if d = 0x5D then Some (JArr [], r1) else parse_elements [] r)
          else if c = 0x7B then
            (case skip_ws r of
               [] \<Rightarrow> None
             | d # r1 \<Rightarrow> if d = 0x7D then Some (JObj [], r1) else parse_members [] r)
          else if c = 0x22 then
            (case parse_string_body r of
               None \<Rightarrow> None
             | Some (t, rest) \<Rightarrow> Some (JStr t, rest))
          else if c = 0x2D \<or> is_digit c then
            (case parse_number (c # r) of
               None \<Rightarrow> None
             | Some (n, rest) \<Rightarrow> Some (JNum n, rest))
          else if take 4 (c # r) = str ''true'' then Some (JBool True, drop 4 (c # r))
          else if take 5 (c # r) = str ''false'' then Some (JBool False, drop 5 (c # r))
          else if take 4 (c # r) = str ''null'' then Some (JNull, drop 4 (c # r))
          else None)"
| "parse_elements acc s =
     (case parse_value s of
        None \<Rightarrow> None
      | Some (v, r) \<Rightarrow>
          (case skip_ws r of
             [] \<Rightarrow> None
           | d # r1 \<Rightarrow>
               if d = 0x2C then
                 (if length r1 < length s then parse_elements (acc @ [v]) r1 else None)
               else if d = 0x5D then Some (JArr (acc @ [v]), r1)
               else None))"
| "parse_members acc s =
     (case skip_ws s of
        [] \<Rightarrow> None
      | q # r0 \<Rightarrow>
          if q \<noteq> 0x22 then None
          else
            (case parse_string_body r0 of
               None \<Rightarrow> None
             | Some (k, r1) \<Rightarrow>
                 (case skip_ws r1 of
                    [] \<Rightarrow> None
                  | colon # r2 \<Rightarrow>
                      if colon \<noteq> 0x3A then None
                      else if \<not> length r2 < length s then None
                      else
                        (case parse_value r2 of
                           None \<Rightarrow> None
                         | Some (v, r3) \<Rightarrow>
                             (case skip_ws r3 of
                                [] \<Rightarrow> None
                              | d # r4 \<Rightarrow>
                                  if d = 0x2C then
                                    (if length r4 < length s
                                     then parse_members (obj_put k v acc) r4 else None)
                                  else if d = 0x7D then Some (JObj (obj_put k v acc), r4)
                                  else None)))))"
  by pat_completeness auto
termination
proof (relation "measure (\<lambda>x. case x of
          Inl s \<Rightarrow> 2 * length s
        | Inr (Inl (acc, s)) \<Rightarrow> 2 * length s + 1
        | Inr (Inr (acc, s)) \<Rightarrow> 2 * length s + 1)")
  show "wf (measure (\<lambda>x. case x of
          Inl s \<Rightarrow> 2 * length s
        | Inr (Inl (acc, s)) \<Rightarrow> 2 * length s + 1
        | Inr (Inr (acc, s)) \<Rightarrow> 2 * length s + 1))"
    by simp
next
  fix s :: jsstring and c r d r1
  assume "skip_ws s = c # r"
  then have "length (c # r) \<le> length s"
    unfolding skip_ws_def by (metis length_dropWhile_le)
  then show "(Inr (Inl ([], r)), Inl s) \<in> measure (\<lambda>x. case x of
          Inl s \<Rightarrow> 2 * length s
        | Inr (Inl (acc, s)) \<Rightarrow> 2 * length s + 1
        | Inr (Inr (acc, s)) \<Rightarrow> 2 * length s + 1)"
    by simp
  from \<open>length (c # r) \<le> length s\<close>
  show "(Inr (Inr ([], r)), Inl s) \<in> measure (\<lambda>x. case x of
          Inl s \<Rightarrow> 2 * length s
        | Inr (Inl (acc, s)) \<Rightarrow> 2 * length s + 1
        | Inr (Inr (acc, s)) \<Rightarrow> 2 * length s + 1)"
    by simp
qed auto

text \<open>\<open>JSON.parse(text)\<close>: one value, white space around it, nothing else. \<open>None\<close> is the
  SyntaxError.\<close>

definition JSON_parse :: "jsstring \<Rightarrow> jsvalue option" where
  "JSON_parse s =
     (case parse_value s of
        None \<Rightarrow> None
      | Some (v, r) \<Rightarrow> if skip_ws r = [] then Some v else None)"


subsection \<open>JSON.stringify of the cache payload\<close>

text \<open>
  QuoteJSONString: the quote, the backslash and the control characters are escaped, a
  surrogate that is not half of a pair is written as a \<open>\u\<close> escape with lower-case hex
  digits, every other code unit is copied.
\<close>

definition hex_digit :: "nat \<Rightarrow> code_unit" where
  "hex_digit n = (if n < 10 then of_nat (48 + n) else of_nat (87 + n))"

definition unicode_escape :: "code_unit \<Rightarrow> jsstring" where
  "unicode_escape c =
     [0x5C, 0x75, hex_digit (unat c div 4096), hex_digit (unat c div 256 mod 16),
      hex_digit (unat c div 16 mod 16), hex_digit (unat c mod 16)]"

definition is_high_surrogate :: "code_unit \<Rightarrow> bool" where
  "is_high_surrogate c \<longleftrightarrow> 0xD800 \<le> c \<and> c \<le> 0xDBFF"

definition is_low_surrogate :: "code_unit \<Rightarrow> bool" where
  "is_low_surrogate c \<longleftrightarrow> 0xDC00 \<le> c \<and> c \<le> 0xDFFF"

fun quote_chars :: "jsstring \<Rightarrow> jsstring" where
  "quote_chars [] = []"
| "quote_chars (c # r) =
     (if c = 0x08 then [0x5C, 0x62] @ quote_chars r
      else if c = 0x09 then [0x5C, 0x74] @ quote_chars r
      else if c = 0x0A then [0x5C, 0x6E] @ quote_chars r
      else if c = 0x0C then [0x5C, 0x66] @ quote_chars r
      else if c = 0x0D then [0x5C, 0x72] @ quote_chars r
      else if c = 0x22 then [0x5C, 0x22] @ quote_chars r
      else if c = 0x5C then [0x5C, 0x5C] @ quote_chars r
      else if c < 0x20 then unicode_escape c @ quote_chars r
      else if is_high_surrogate c then
        (case r of
           [] \<Rightarrow> unicode_escape c
         | d # r1 \<Rightarrow>
             if is_low_surrogate d then c # d # quote_chars r1
             else unicode_escape c @ quote_chars r)
      else if is_low_surrogate c then unicode_escape c @ quote_chars r
      else c # quote_chars r)"

definition stringify_string :: "jsstring \<Rightarrow> jsstring" where
  "stringify_string s = 0x22 # quote_chars s @ [0x22]"

text \<open>The decimal digits of \<open>Date.now()\<close>, a non-negative integer below 10^21.\<close>

function show_nat :: "nat \<Rightarrow> jsstring" where
  "show_nat n = (if n < 10 then [of_nat (48 + n)] else show_nat (n div 10) @ [of_nat (48 + n mod 10)])"
  by pat_completeness auto
termination
  by (relation "measure (\<lambda>n. n)") auto

fun join_with :: "code_unit \<Rightarrow> jsstring list \<Rightarrow> jsstring" where
  "join_with sep [] = []"
| "join_with sep [x] = x"
| "join_with sep (x # y # r) = x @ sep # join_with sep (y # r)"

definition stringify_entry :: "entry \<Rightarrow> jsstring" where
  "stringify_entry e = 0x5B # stringify_string (fst e) @ 0x2C # stringify_string (snd e) @ [0x5D]"

definition stringify_entries :: "entry list \<Rightarrow> jsstring" where
  "stringify_entries es = 0x5B # join_with 0x2C (map stringify_entry es) @ [0x5D]"

definition stringify_member :: "jsstring \<times> entry list \<Rightarrow> jsstring" where
  "stringify_member m = stringify_string (fst m) @ 0x3A # stringify_entries (snd m)"

definition stringify_index :: "index \<Rightarrow> jsstring" where
  "stringify_index idx = 0x7B # join_with 0x2C (map stringify_member idx) @ [0x7D]"

text \<open>\<open>JSON.stringify(payload)\<close> for \<open>payload = { time, timeText, corner, edge }\<close>.\<close>

definition stringify_payload :: "nat \<Rightarrow> jsstring \<Rightarrow> index \<Rightarrow> index \<Rightarrow> jsstring" where
  "stringify_payload t tt corner edge =
     0x7B # stringify_string (str ''time'') @ 0x3A # show_nat t
     @ 0x2C # stringify_string (str ''timeText'') @ 0x3A # stringify_string tt
     @ 0x2C # stringify_string (str ''corner'') @ 0x3A # stringify_index corner
     @ 0x2C # stringify_string (str ''edge'') @ 0x3A # stringify_index edge
     @ [0x7D]"

definition payload_js :: "nat \<Rightarrow> jsstring \<Rightarrow> index \<Rightarrow> index \<Rightarrow> jsvalue" where
  "payload_js t tt corner edge =
     JObj [(str ''time'', JNum (of_nat t)), (str ''timeText'', JStr tt),
           (str ''corner'', index_to_js corner), (str ''edge'', index_to_js edge)]"


section \<open>Program state, Cache Store and Acquisition Controller\<close>

text \<open>24 hours in milliseconds. No function below mentions it.\<close>

definition CACHE_TIME :: nat where
  "CACHE_TIME = 1000 * 60 * 60 * 24"

datatype category = Corner | Edge

text \<open>
  The text of the status line: the message passed to \<open>updateStatus\<close>, and the value that
  the template \<open>Last: ${cache.timeText}\<close> interpolates when there is a second argument.
\<close>

datatype message =
    Updating
  | Updated
  | OfflineUsingCache
  | NoDataAvailable
  | LoadedFromCache
  | NoCacheFetching
  | NoResults
  | Found

text \<open>
  The variables of the module, the slot \<open>CACHE_KEY\<close> of \<open>localStorage\<close>, the refresh
  button, the status line, the number of \<open>fetch\<close> calls made so far, and whether an
  exception has escaped from \<open>init\<close> or \<open>fetchData\<close> (the promise of the async function
  is rejected, and no caller handles it).
\<close>

record state =
  dataCorner :: jsvalue
  dataEdge :: jsvalue
  active :: category
  storage :: "jsstring option"
  refreshDisabled :: bool
  status :: "message \<times> jsvalue option"
  fetches :: nat
  uncaught :: bool

text \<open>
  What the surroundings answer during one refresh: the clock, both retrievals, and whether
  \<open>localStorage.setItem\<close> throws (quota exceeded). A retrieval is a rejected promise or a
  response with its \<open>ok\<close> flag and its body (\<open>None\<close> when reading the body fails).
\<close>

datatype response = Response (ok: bool) (body: "jsstring option")

datatype retrieval = Rejected | Fulfilled response

record env =
  now :: nat
  nowText :: jsstring
  cornerFetch :: retrieval
  edgeFetch :: retrieval
  setItemThrows :: bool

text \<open>\<open>saveCache\<close>; \<open>None\<close> when \<open>setItem\<close> throws, and the slot keeps its content.\<close>

definition saveCache :: "env \<Rightarrow> index \<Rightarrow> index \<Rightarrow> state \<Rightarrow> state option" where
  "saveCache e corner edge st =
     (if setItemThrows e then None
      else Some (st\<lparr>storage := Some (stringify_payload (now e) (nowText e) corner edge)\<rparr>))"

text \<open>\<open>loadCache\<close> on the content of the slot: \<open>!raw\<close> holds for \<open>null\<close> and for the
  empty string.\<close>

definition loadCache_raw :: "jsstring option \<Rightarrow> jsvalue" where
  "loadCache_raw raw =
     (case raw of
        None \<Rightarrow> JNull
      | Some r \<Rightarrow>
          if r = [] then JNull
          else (case JSON_parse r of None \<Rightarrow> JNull | Some v \<Rightarrow> v))"

definition loadCache :: "state \<Rightarrow> jsvalue" where
  "loadCache st = loadCache_raw (storage st)"

text \<open>
  \<open>cache.corner\<close>, \<open>cache.edge\<close>, \<open>cache.timeText\<close>: reading one of these names throws
  a TypeError (\<open>None\<close>) on \<open>null\<close> and \<open>undefined\<close>, gives the own property of an object, and
  \<open>undefined\<close> where there is none, as on arrays, strings, numbers and booleans: no
  prototype has a member of one of these three names.
\<close>

fun get_field :: "jsvalue \<Rightarrow> jsstring \<Rightarrow> jsvalue option" where
  "get_field JUndefined name = None"
| "get_field JNull name = None"
| "get_field (JObj ps) name = Some (case map_of ps name of None \<Rightarrow> JUndefined | Some v \<Rightarrow> v)"
| "get_field v name = Some JUndefined"

definition field_or_undefined :: "jsvalue \<Rightarrow> jsstring \<Rightarrow> jsvalue" where
  "field_or_undefined v name = (case get_field v name of None \<Rightarrow> JUndefined | Some x \<Rightarrow> x)"

text \<open>
  The conversion to a string that the template \<open>Last: ${cache.timeText}\<close> applies to its
  value: whether it returns. It throws a TypeError for an object that has an own property
  \<open>toString\<close> (a value from JSON is never callable, and the inherited \<open>valueOf\<close> returns
  the object itself), and for an array one of whose elements it throws for
  (\<open>Array.prototype.toString\<close> joins the conversions of the elements).
\<close>

fun converts_to_string :: "jsvalue \<Rightarrow> bool" where
  "converts_to_string (JObj ps) = (map_of ps (str ''toString'') = None)"
| "converts_to_string (JArr xs) = list_all converts_to_string xs"
| "converts_to_string v = True"

text \<open>
  The \<open>catch\<close> block of \<open>fetchData\<close>. The cache is truthy where its fields are read,
  so these reads do not throw. The template is evaluated after the two assignments and
  before \<open>updateStatus\<close> is called: when it throws, the status is not set and the
  exception leaves \<open>fetchData\<close>.
\<close>

definition fetch_failed :: "state \<Rightarrow> state" where
  "fetch_failed st =
     (let cache = loadCache st in
      if truthy cache then
        (let st1 = st\<lparr>dataCorner := field_or_undefined cache (str ''corner''),
                       dataEdge := field_or_undefined cache (str ''edge'')\<rparr>;
             timeText = field_or_undefined cache (str ''timeText'')
         in if converts_to_string timeText
            then st1\<lparr>status := (OfflineUsingCache, Some timeText)\<rparr>
            else st1\<lparr>uncaught := True\<rparr>)
      else st\<lparr>status := (NoDataAvailable, None)\<rparr>)"

text \<open>The \<open>try\<close> block; every throw inside it ends in \<open>fetch_failed\<close> on the state reached.\<close>

definition fetch_try :: "(jsstring \<Rightarrow> jsstring) \<Rightarrow> env \<Rightarrow> state \<Rightarrow> state" where
  "fetch_try up e st =
     (let st1 = st\<lparr>status := (Updating, None), refreshDisabled := True, fetches := fetches st + 2\<rparr> in
      case (cornerFetch e, edgeFetch e) of
        (Fulfilled cornerRes, Fulfilled edgeRes) \<Rightarrow>
          if \<not> ok cornerRes \<or> \<not> ok edgeRes then fetch_failed st1
          else
            (case body cornerRes of
               None \<Rightarrow> fetch_failed st1
             | Some cornerText \<Rightarrow>
                 (case body edgeRes of
                    None \<Rightarrow> fetch_failed st1
                  | Some edgeText \<Rightarrow>
                      (let st2 = st1\<lparr>dataCorner := index_to_js (parseTSV up cornerText),
                                      dataEdge := index_to_js (parseTSV up edgeText)\<rparr> in
                       case saveCache e (parseTSV up cornerText) (parseTSV up edgeText) st2 of
                         None \<Rightarrow> fetch_failed st2
                       | Some st3 \<Rightarrow>
                           (case get_field (loadCache st3) (str ''timeText'') of
                              None \<Rightarrow> fetch_failed st3
                            | Some t \<Rightarrow>
                                if converts_to_string t then st3\<lparr>status := (Updated, Some t)\<rparr>
                                else fetch_failed st3))))
      | _ \<Rightarrow> fetch_failed st1)"

text \<open>\<open>fetchData\<close>: \<open>try\<close>, \<open>catch\<close>, and the \<open>finally\<close> block that enables the button again,
  also when the \<open>catch\<close> block has thrown.\<close>

definition fetchData :: "(jsstring \<Rightarrow> jsstring) \<Rightarrow> env \<Rightarrow> state \<Rightarrow> state" where
  "fetchData up e st = (fetch_try up e st)\<lparr>refreshDisabled := False\<rparr>"

text \<open>\<open>init\<close>. In the cache branch the template can throw as in the \<open>catch\<close> block above;
  after \<open>await fetchData()\<close> only \<open>input.focus()\<close> follows, which is not part of the state.\<close>

definition init :: "(jsstring \<Rightarrow> jsstring) \<Rightarrow> env \<Rightarrow> state \<Rightarrow> state" where
  "init up e st =
     (let cache = loadCache st in
      if truthy cache then
        (let st1 = st\<lparr>dataCorner := field_or_undefined cache (str ''corner''),
                       dataEdge := field_or_undefined cache (str ''edge'')\<rparr>;
             timeText = field_or_undefined cache (str ''timeText'')
         in if converts_to_string timeText
            then st1\<lparr>status := (LoadedFromCache, Some timeText)\<rparr>
            else st1\<lparr>uncaught := True\<rparr>)
      else fetchData up e (st\<lparr>status := (NoCacheFetching, None)\<rparr>))"

text \<open>The state of the module when the script has been loaded, before \<open>init()\<close>.\<close>

definition initial_state :: "jsstring option \<Rightarrow> state" where
  "initial_state slot =
     \<lparr>dataCorner = JObj [], dataEdge = JObj [], active = Corner, storage = slot,
      refreshDisabled = False, status = (NoResults, None), fetches = 0, uncaught = False\<rparr>"


section \<open>The Lookup Engine\<close>



text \<open>
  The members of \<open>Object.prototype\<close>, which every plain object inherits: the functions
  with the number of their parameters, and the accessor \<open>__proto__\<close>, which gives
  \<open>Object.prototype\<close> itself. None of the names has two code units.
\<close>

definition object_prototype_table :: "(jsstring \<times> jsvalue) list" where
  "object_prototype_table =
       [(str ''constructor'', JBuiltin (Function 1)),
        (str ''hasOwnProperty'', JBuiltin (Function 1)),
        (str ''isPrototypeOf'', JBuiltin (Function 1)),
        (str ''propertyIsEnumerable'', JBuiltin (Function 1)),
        (str ''toLocaleString'', JBuiltin (Function 0)),
        (str ''toString'', JBuiltin (Function 0)),
        (str ''valueOf'', JBuiltin (Function 0)),
        (str ''__defineGetter__'', JBuiltin (Function 2)),
        (str ''__defineSetter__'', JBuiltin (Function 2)),
        (str ''__lookupGetter__'', JBuiltin (Function 1)),
        (str ''__lookupSetter__'', JBuiltin (Function 1)),
        (str ''__proto__'', JBuiltin ObjectPrototype)]"

definition object_prototype_member :: "jsstring \<Rightarrow> jsvalue option" where
  "object_prototype_member k = map_of object_prototype_table k"











section \<open>The Tabular Parser on a heap\<close>

text \<open>
  \<open>parseTSV\<close> above returns the Index as a value. The source builds it in place: \<open>out\<close>
  is a reference to a new object, \<open>out[key] = []\<close> stores a reference to a new array
  and \<open>push\<close> updates that array where it lies. The store is made explicit here: a heap
  is the list of its cells, an address is a position in it, and allocation appends a
  cell. The body of \<open>parseTSV\<close> names only its parameter and its local variables, so the
  heap is the only part of the program state it receives and returns.
\<close>

datatype hval = Undefined | Str jsstring | Ref nat | Builtin builtin

datatype cell = Object "(jsstring \<times> hval) list" | Array "hval list"

type_synonym heap = "cell list"

definition alloc :: "cell \<Rightarrow> heap \<Rightarrow> nat \<times> heap" where
  "alloc c h = (length h, h @ [c])"

text \<open>
  \<open>out[key]\<close> read: the own property, else the member inherited from
  \<open>Object.prototype\<close>, else \<open>undefined\<close>. The result is \<open>None\<close> when the address does
  not hold a plain object, which no run of \<open>parseTSV\<close> reaches.
\<close>

definition heap_get :: "heap \<Rightarrow> nat \<Rightarrow> jsstring \<Rightarrow> hval option" where
  "heap_get h a key =
     (if a < length h then
        (case h ! a of
           Object ps \<Rightarrow>
             Some (case map_of ps key of
                     Some v \<Rightarrow> v
                   | None \<Rightarrow>
                       (case object_prototype_member key of
                          Some (JBuiltin b) \<Rightarrow> Builtin b
                        | _ \<Rightarrow> Undefined))
         | Array xs \<Rightarrow> None)
      else None)"

text \<open>
  \<open>out[key] = v\<close>: the own property is overwritten, or created after the existing ones.
  (The one name whose assignment creates no own property, \<open>__proto__\<close>, has length 9;
  the parser assigns only under keys of length 2.)
\<close>

definition heap_set :: "nat \<Rightarrow> jsstring \<Rightarrow> hval \<Rightarrow> heap \<Rightarrow> heap option" where
  "heap_set a key v h =
     (if a < length h then
        (case h ! a of
           Object ps \<Rightarrow>
             Some (h[a := Object (if key \<in> set (map fst ps)
                                  then map (\<lambda>(k, x). if k = key then (k, v) else (k, x)) ps
                                  else ps @ [(key, v)])])
         | Array xs \<Rightarrow> None)
      else None)"

text \<open>
  \<open>target.push(v)\<close>: appends to the array the reference points to. On anything else
  (\<open>undefined\<close>, a string, a function, a plain object) the call throws a
  \<open>TypeError\<close>: the result is \<open>None\<close>.
\<close>

definition heap_push :: "hval \<Rightarrow> hval \<Rightarrow> heap \<Rightarrow> heap option" where
  "heap_push target v h =
     (case target of
        Ref a \<Rightarrow>
          if a < length h then
            (case h ! a of Array xs \<Rightarrow> Some (h[a := Array (xs @ [v])]) | Object ps \<Rightarrow> None)
          else None
      | _ \<Rightarrow> None)"

fun hval_truthy :: "hval \<Rightarrow> bool" where
  "hval_truthy Undefined = False"
| "hval_truthy (Str s) = (s \<noteq> [])"
| "hval_truthy (Ref a) = True"
| "hval_truthy (Builtin b) = True"

text \<open>\<open>if (!out[key]) { out[key] = []; }\<close>\<close>

definition heap_ensure_key :: "nat \<Rightarrow> jsstring \<Rightarrow> heap \<Rightarrow> heap option" where
  "heap_ensure_key out key h =
     (case heap_get h out key of
        None \<Rightarrow> None
      | Some v \<Rightarrow>
          if hval_truthy v then Some h
          else (case alloc (Array []) h of (a, h1) \<Rightarrow> heap_set out key (Ref a) h1))"

text \<open>\<open>out[key].push([value1, value2])\<close>\<close>

definition heap_push_entry :: "nat \<Rightarrow> jsstring \<Rightarrow> entry \<Rightarrow> heap \<Rightarrow> heap option" where
  "heap_push_entry out key e h =
     (case heap_get h out key of
        None \<Rightarrow> None
      | Some target \<Rightarrow>
          (case alloc (Array [Str (fst e), Str (snd e)]) h of
             (p, h1) \<Rightarrow> heap_push target (Ref p) h1))"

text \<open>The two statements of lines 174 to 178, one after the other.\<close>

definition heap_store :: "nat \<Rightarrow> jsstring \<Rightarrow> entry \<Rightarrow> heap \<Rightarrow> heap option" where
  "heap_store out key e h =
     (case heap_ensure_key out key h of
        None \<Rightarrow> None
      | Some h1 \<Rightarrow> heap_push_entry out key e h1)"

text \<open>The body of the loop, with the same gate as \<open>parseTSV_line\<close>.\<close>

definition parseTSV_line_heap ::
    "(jsstring \<Rightarrow> jsstring) \<Rightarrow> nat \<Rightarrow> heap \<Rightarrow> jsstring \<Rightarrow> heap option" where
  "parseTSV_line_heap up out h line0 =
     (let line = remove_cr line0 in
      if trim line = [] then Some h
      else let cols = split_on TAB line in
        if length cols < 2 then Some h
        else case pick_fields up cols of (value1, key, value2) \<Rightarrow>
          if key = [] \<or> length key \<noteq> 2 then Some h
          else if value2 = [] then Some h
          else heap_store out key (value1, value2) h)"

fun parseTSV_loop_heap ::
    "(jsstring \<Rightarrow> jsstring) \<Rightarrow> nat \<Rightarrow> heap \<Rightarrow> jsstring list \<Rightarrow> heap option" where
  "parseTSV_loop_heap up out h [] = Some h"
| "parseTSV_loop_heap up out h (line # lines) =
     (case parseTSV_line_heap up out h line of
        None \<Rightarrow> None
      | Some h1 \<Rightarrow> parseTSV_loop_heap up out h1 lines)"

text \<open>
  \<open>parseTSV(text)\<close> started on the heap \<open>h\<close>: the address it returns and the heap it
  leaves, or \<open>None\<close> when it throws.
\<close>

definition parseTSV_heap ::
    "(jsstring \<Rightarrow> jsstring) \<Rightarrow> jsstring \<Rightarrow> heap \<Rightarrow> (nat \<times> heap) option" where
  "parseTSV_heap up text h =
     (case alloc (Object []) h of
        (out, h0) \<Rightarrow>
          (case parseTSV_loop_heap up out h0 (split_on LF text) of
             None \<Rightarrow> None
           | Some h1 \<Rightarrow> Some (out, h1)))"

text \<open>
  The Index a reference denotes in a heap, read by following the references: the keys
  of the object in the order of their creation, and under each key the pairs of its
  array in their order. \<open>None\<close> when the cells reached do not have the shape of an Index.
\<close>

definition read_pair :: "heap \<Rightarrow> hval \<Rightarrow> entry option" where
  "read_pair h v =
     (case v of
        Ref p \<Rightarrow>
          if p < length h then
            (case h ! p of
               Array [Str value1, Str value2] \<Rightarrow> Some (value1, value2)
             | _ \<Rightarrow> None)
          else None
      | _ \<Rightarrow> None)"

definition read_entries :: "heap \<Rightarrow> hval \<Rightarrow> entry list option" where
  "read_entries h v =
     (case v of
        Ref a \<Rightarrow>
          if a < length h then
            (case h ! a of Array xs \<Rightarrow> those (map (read_pair h) xs) | Object ps \<Rightarrow> None)
          else None
      | _ \<Rightarrow> None)"

definition read_index :: "heap \<Rightarrow> nat \<Rightarrow> index option" where
  "read_index h a =
     (if a < length h then
        (case h ! a of
           Object ps \<Rightarrow>
             those (map (\<lambda>(k, v). map_option (\<lambda>es. (k, es)) (read_entries h v)) ps)
         | Array xs \<Rightarrow> None)
      else None)"

text \<open>
  The layout of an Index under construction, used in the proofs only: for each key the
  address of its array and, for each entry, the address of its pair. \<open>rep n out H L\<close>
  says that the heap \<open>H\<close> holds at \<open>out\<close> an Index laid out as \<open>L\<close>, in cells of
  address \<open>n\<close> or more that do not overlap.
\<close>

datatype slot = Slot (skey: jsstring) (sarr: nat) (spairs: "(nat \<times> entry) list")

definition layout_index :: "slot list \<Rightarrow> index" where
  "layout_index L = map (\<lambda>s. (skey s, map snd (spairs s))) L"

definition rep :: "nat \<Rightarrow> nat \<Rightarrow> heap \<Rightarrow> slot list \<Rightarrow> bool" where
  "rep n out H L \<longleftrightarrow>
     n \<le> out \<and> out < length H \<and>
     H ! out = Object (map (\<lambda>s. (skey s, Ref (sarr s))) L) \<and>
     distinct (map skey L) \<and> distinct (map sarr L) \<and>
     (\<forall>s \<in> set L.
        n \<le> sarr s \<and> sarr s < length H \<and> sarr s \<noteq> out \<and>
        H ! sarr s = Array (map (\<lambda>pe. Ref (fst pe)) (spairs s)) \<and>
        (\<forall>pe \<in> set (spairs s).
           n \<le> fst pe \<and> fst pe < length H \<and> fst pe \<noteq> out \<and> fst pe \<notin> sarr ` set L \<and>
           H ! fst pe = Array [Str (fst (snd pe)), Str (snd (snd pe))]))"

definition slot_push :: "jsstring \<Rightarrow> nat \<Rightarrow> entry \<Rightarrow> slot list \<Rightarrow> slot list" where
  "slot_push key p e L =
     map (\<lambda>s. if skey s = key then Slot (skey s) (sarr s) (spairs s @ [(p, e)]) else s) L"

text \<open>\<open>frame n H H'\<close>: from \<open>H\<close> to \<open>H'\<close> no cell below \<open>n\<close> has changed or disappeared.\<close>

definition frame :: "nat \<Rightarrow> heap \<Rightarrow> heap \<Rightarrow> bool" where
  "frame n H H' \<longleftrightarrow> length H \<le> length H' \<and> (\<forall>i < n. H' ! i = H ! i)"

section \<open>Notions used in the statements\<close>

text \<open>The entries under a key, none when the key is absent.\<close>

definition entries_of :: "index \<Rightarrow> jsstring \<Rightarrow> entry list" where
  "entries_of out key = (case get_entries out key of None \<Rightarrow> [] | Some es \<Rightarrow> es)"

text \<open>The invariant of an index: one property per key, keys of two code units that
  upper-casing leaves alone, no key without entries, no entry with an empty value.\<close>

definition index_ok :: "(jsstring \<Rightarrow> jsstring) \<Rightarrow> index \<Rightarrow> bool" where
  "index_ok up idx \<longleftrightarrow>
     distinct (map fst idx) \<and>
     (\<forall>(key, es) \<in> set idx. length key = 2 \<and> up key = key \<and> es \<noteq> [] \<and>
        (\<forall>(note, value) \<in> set es. value \<noteq> []))"

text \<open>A retrieval that did not succeed: the promise was rejected, or \<open>ok\<close> is false.\<close>

definition retrieval_failed :: "retrieval \<Rightarrow> bool" where
  "retrieval_failed r = (case r of Rejected \<Rightarrow> True | Fulfilled res \<Rightarrow> \<not> ok res)"

text \<open>Inputs of the examples: the lines of the spec's scenarios 1, 2 and 4, a line with
  a carriage return inside its first field, and surroundings in which nothing works.\<close>

definition line_three_fields :: jsstring where
  "line_three_fields = str ''note1'' @ [TAB] @ str ''ab'' @ [TAB] @ str ''valueX''"

definition line_two_fields :: jsstring where
  "line_two_fields = str ''AB'' @ [TAB] @ str ''valueY''"

text \<open>A text of two lines with the same key.\<close>

definition two_lines :: jsstring where
  "two_lines = line_three_fields @ [LF] @ line_two_fields"

definition line_short_key :: jsstring where
  "line_short_key = str ''x'' @ [TAB] @ str ''A'' @ [TAB] @ str ''value''"

definition line_inner_cr :: jsstring where
  "line_inner_cr = str ''n'' @ [CR] @ str ''x'' @ [TAB] @ str ''AB'' @ [TAB] @ str ''v''"

definition offline_env :: env where
  "offline_env =
     \<lparr>now = 5, nowText = str ''later'', cornerFetch = Rejected,
      edgeFetch = Fulfilled (Response False None), setItemThrows = False\<rparr>"

definition two_entries :: index where
  "two_entries = [(str ''AB'', [(str ''n1'', str ''v1''), (str ''n2'', str ''v2'')]), (str ''CD'', [])]"

text \<open>A slot whose content is valid JSON with a \<open>timeText\<close> that cannot be converted to a
  string: \<open>{"corner":{},"edge":[],"timeText":{"toString":1}}\<close>.\<close>

definition slot_time_text_object :: jsstring where
  "slot_time_text_object =
     str ''{'' @ stringify_string (str ''corner'') @ str '':{},''
     @ stringify_string (str ''edge'') @ str '':[],''
     @ stringify_string (str ''timeText'') @ str '':{''
     @ stringify_string (str ''toString'') @ str '':1}}''"

text \<open>A start-up two days after the epoch.\<close>

definition late_env :: env where
  "late_env = offline_env\<lparr>now := 2 * CACHE_TIME\<rparr>"

text \<open>One property of an index as a property of the object.\<close>

definition member_to_js :: "jsstring \<times> entry list \<Rightarrow> jsstring \<times> jsvalue" where
  "member_to_js m = (fst m, JArr (map entry_to_js (snd m)))"


section \<open>The parser: carriage returns\<close>

lemma split_on_nonempty: "split_on sep s \<noteq> []"
  by (induction s) (auto split: list.splits)

lemma split_on_filter:
  "c0 \<noteq> sep \<Longrightarrow>
     split_on sep (filter (\<lambda>c. c \<noteq> c0) s) = map (filter (\<lambda>c. c \<noteq> c0)) (split_on sep s)"
proof (induction s)
  case Nil
  then show ?case by simp
next
  case (Cons c s)
  then show ?case
    using split_on_nonempty [of sep s]
    by (cases "split_on sep s") auto
qed

lemma split_on_units_all: "\<forall>f \<in> set (split_on sep s). set f \<subseteq> set s"
proof (induction s)
  case Nil
  then show ?case by simp
next
  case (Cons c s)
  then show ?case
    by (cases "split_on sep s") (auto split: if_splits)
qed

lemma split_on_units: "f \<in> set (split_on sep s) \<Longrightarrow> set f \<subseteq> set s"
  using split_on_units_all by blast

lemma remove_cr_idem: "remove_cr (remove_cr l) = remove_cr l"
  by (simp add: remove_cr_def)

lemma remove_cr_id: "CR \<notin> set l \<Longrightarrow> remove_cr l = l"
  by (auto simp: remove_cr_def filter_id_conv)

lemma parseTSV_line_remove_cr: "parseTSV_line up out (remove_cr line) = parseTSV_line up out line"
  by (simp add: parseTSV_line_def remove_cr_idem)

lemma parseTSV_loop_remove_cr:
  "parseTSV_loop up out (map remove_cr ls) = parseTSV_loop up out ls"
  by (induction ls arbitrary: out) (simp_all add: parseTSV_line_remove_cr)

lemma CR_neq_LF: "CR \<noteq> LF"
  by (simp add: CR_def LF_def)

lemma parseTSV_remove_cr: "parseTSV up (remove_cr t) = parseTSV up t"
  unfolding parseTSV_def remove_cr_def
  using split_on_filter [OF CR_neq_LF, of t] parseTSV_loop_remove_cr [of up "[]" "split_on LF t"]
  by (simp add: remove_cr_def [abs_def])

lemma line_cols_no_cr: "f \<in> set (line_cols line) \<Longrightarrow> CR \<notin> set f"
  using split_on_units [of f TAB "remove_cr line"]
  by (auto simp: line_cols_def remove_cr_def)

text \<open>
  C1, as the claim states it, fails: a carriage return inside a field is deleted too. On
  the line \<open>n\<close> CR \<open>x\<close> TAB \<open>AB\<close> TAB \<open>v\<close> the parser splits \<open>nx\<close>, \<open>AB\<close>,
  \<open>v\<close> and stores the note \<open>nx\<close>, where stripping only a final carriage return would
  leave the first field \<open>n\<close> CR \<open>x\<close>.
\<close>

theorem inner_cr_counterexample:
  "line_cols line_inner_cr \<noteq> split_on TAB (strip_trailing_cr line_inner_cr)
   \<and> line_cols line_inner_cr = [str ''nx'', str ''AB'', str ''v'']
   \<and> parseTSV ascii_upper line_inner_cr = [(str ''AB'', [(str ''nx'', str ''v'')])]"
  by code_simp

text \<open>
  C1, amended: every carriage return of a line is deleted before the line is split into
  fields, wherever it stands. So the parser gives the same index for a text and for the
  text without its carriage returns, no field contains a carriage return, and a line whose
  only carriage return is its last character is split as the line without it.
\<close>

theorem all_cr_removed:
  "parseTSV up (remove_cr t) = parseTSV up t
   \<and> (\<forall>f \<in> set (line_cols line). CR \<notin> set f)
   \<and> line_cols (remove_cr line) = line_cols line
   \<and> (CR \<notin> set l \<longrightarrow> line_cols (l @ [CR]) = split_on TAB l)"
  using parseTSV_remove_cr line_cols_no_cr remove_cr_id
  by (auto simp: line_cols_def remove_cr_idem remove_cr_def)

theorem all_cr_removed_witness:
  "parseTSV ascii_upper (remove_cr line_inner_cr) = parseTSV ascii_upper line_inner_cr
   \<and> str ''nx'' \<in> set (line_cols line_inner_cr) \<and> CR \<notin> set (str ''nx'')
   \<and> CR \<notin> set line_two_fields
   \<and> line_cols (line_two_fields @ [CR]) = split_on TAB line_two_fields"
proof -
  have a: "str ''nx'' \<in> set (line_cols line_inner_cr)"
    by code_simp
  have b: "CR \<notin> set line_two_fields"
    by code_simp
  from a b all_cr_removed [of ascii_upper line_inner_cr line_inner_cr line_two_fields]
  show ?thesis by blast
qed

section \<open>The parser: what a line stores\<close>

lemma get_entries_push:
  "get_entries (push_entry key e out) k =
     (if k = key then map_option (\<lambda>es. es @ [e]) (get_entries out k) else get_entries out k)"
  by (induction out) (auto simp: get_entries_def push_entry_def)

lemma get_entries_ensure:
  "get_entries (ensure_key key out) k =
     (if k = key then Some (entries_of out key) else get_entries out k)"
  by (auto simp: ensure_key_def get_entries_def entries_of_def map_add_def
      split: option.splits)

lemma get_entries_store:
  "get_entries (push_entry key e (ensure_key key out)) k =
     (if k = key then Some (entries_of out key @ [e]) else get_entries out k)"
  by (simp add: get_entries_push get_entries_ensure)

lemma keys_push: "map fst (push_entry key e out) = map fst out"
  by (induction out) (auto simp: push_entry_def)

lemma keys_ensure:
  "map fst (ensure_key key out) =
     (if key \<in> set (map fst out) then map fst out else map fst out @ [key])"
  by (force simp: ensure_key_def get_entries_def map_of_eq_None_iff split: option.splits
      dest: map_of_SomeD)

lemma parseTSV_line_accept3:
  assumes "trim (remove_cr line) \<noteq> []" and "3 \<le> length (line_cols line)"
    and "length (up (trim (line_cols line ! 1))) = 2" and "trim (line_cols line ! 2) \<noteq> []"
  shows "parseTSV_line up out line =
     push_entry (up (trim (line_cols line ! 1))) (trim (line_cols line ! 0), trim (line_cols line ! 2))
       (ensure_key (up (trim (line_cols line ! 1))) out)"
  using assms by (auto simp: parseTSV_line_def line_cols_def pick_fields_def Let_def)

lemma parseTSV_line_accept2:
  assumes "trim (remove_cr line) \<noteq> []" and "length (line_cols line) = 2"
    and "length (up (trim (line_cols line ! 0))) = 2" and "trim (line_cols line ! 1) \<noteq> []"
  shows "parseTSV_line up out line =
     push_entry (up (trim (line_cols line ! 0))) ([], trim (line_cols line ! 1))
       (ensure_key (up (trim (line_cols line ! 0))) out)"
  using assms by (auto simp: parseTSV_line_def line_cols_def pick_fields_def Let_def)

lemma parseTSV_line_cases:
  "parseTSV_line up out line = out \<or>
   (\<exists>key value1 value2. length key = 2 \<and> value2 \<noteq> [] \<and> (\<exists>f. key = up f) \<and>
      parseTSV_line up out line = push_entry key (value1, value2) (ensure_key key out))"
  by (auto simp: parseTSV_line_def pick_fields_def Let_def)

lemma entries_mono_line:
  "e \<in> set (entries_of out k) \<Longrightarrow> e \<in> set (entries_of (parseTSV_line up out l) k)"
  using parseTSV_line_cases [of up out l]
  by (auto simp: entries_of_def get_entries_store)

lemma entries_mono_loop:
  "e \<in> set (entries_of out k) \<Longrightarrow> e \<in> set (entries_of (parseTSV_loop up out ls) k)"
  by (induction ls arbitrary: out) (simp_all add: entries_mono_line)

lemma parseTSV_loop_append:
  "parseTSV_loop up out (xs @ ys) = parseTSV_loop up (parseTSV_loop up out xs) ys"
  by (induction xs arbitrary: out) simp_all

lemma entries_of_line_member:
  assumes "l \<in> set ls" and "\<And>out. e \<in> set (entries_of (parseTSV_line up out l) k)"
  shows "e \<in> set (entries_of (parseTSV_loop up out ls) k)"
proof -
  from assms(1) obtain xs ys where "ls = xs @ l # ys"
    by (meson split_list)
  then show ?thesis
    using assms(2) by (simp add: parseTSV_loop_append entries_mono_loop)
qed

subsection \<open>The invariant of the index\<close>

lemma in_store_cases:
  assumes "(k, es') \<in> set (push_entry key e (ensure_key key out))"
  shows "(k \<noteq> key \<and> (k, es') \<in> set out) \<or>
         (k = key \<and> (\<exists>es. es' = es @ [e] \<and> ((key, es) \<in> set out \<or> es = [])))"
  using assms
  by (auto simp: push_entry_def ensure_key_def split: option.splits if_splits)

lemma index_ok_store:
  assumes ok: "index_ok up out" and k: "length key = 2" "up key = key" and v: "value2 \<noteq> []"
  shows "index_ok up (push_entry key (value1, value2) (ensure_key key out))"
proof -
  have "distinct (map fst (push_entry key (value1, value2) (ensure_key key out)))"
    using ok by (simp add: keys_push keys_ensure index_ok_def)
  moreover have "length k' = 2 \<and> up k' = k' \<and> es' \<noteq> [] \<and> (\<forall>(note, value) \<in> set es'. value \<noteq> [])"
    if "(k', es') \<in> set (push_entry key (value1, value2) (ensure_key key out))" for k' es'
    using in_store_cases [OF that] ok k v by (fastforce simp: index_ok_def)
  ultimately show ?thesis
    unfolding index_ok_def by blast
qed

lemma index_ok_line:
  assumes idem: "\<And>s. up (up s) = up s" and ok: "index_ok up out"
  shows "index_ok up (parseTSV_line up out line)"
proof -
  from parseTSV_line_cases [of up out line] show ?thesis
  proof
    assume "parseTSV_line up out line = out"
    with ok show ?thesis by simp
  next
    assume "\<exists>key value1 value2. length key = 2 \<and> value2 \<noteq> [] \<and> (\<exists>f. key = up f) \<and>
      parseTSV_line up out line = push_entry key (value1, value2) (ensure_key key out)"
    then obtain key value1 value2 f where
      "length key = 2" "value2 \<noteq> []" "key = up f"
      "parseTSV_line up out line = push_entry key (value1, value2) (ensure_key key out)"
      by blast
    with idem ok show ?thesis
      by (simp add: index_ok_store)
  qed
qed

lemma index_ok_loop:
  assumes idem: "\<And>s. up (up s) = up s"
  shows "index_ok up out \<Longrightarrow> index_ok up (parseTSV_loop up out ls)"
  by (induction ls arbitrary: out) (simp_all add: index_ok_line [OF idem])

lemma index_ok_parseTSV:
  assumes idem: "\<And>s. up (up s) = up s"
  shows "index_ok up (parseTSV up t)"
  unfolding parseTSV_def
  by (rule index_ok_loop [OF idem]) (simp add: index_ok_def)

lemma ascii_upper_unit_idem: "ascii_upper_unit (ascii_upper_unit c) = ascii_upper_unit c"
  unfolding ascii_upper_unit_def by (auto; unat_arith)

lemma ascii_upper_idem: "ascii_upper (ascii_upper s) = ascii_upper s"
  by (simp add: ascii_upper_def ascii_upper_unit_idem)

text \<open>
  C2. Whatever the text, and for an upper-casing \<open>up\<close> that is idempotent (as the Unicode
  mapping of \<open>toUpperCase\<close> is): the index that \<open>parseTSV\<close> returns has one property per
  key; every key has exactly two code units and equals its own upper-casing; every key
  holds at least one entry; the value of every entry is a non-empty string. The note of an
  entry is a string by its type, possibly the empty one: as a value of the runtime the
  property of a key is an array of two-element arrays of strings.
\<close>

theorem parseTSV_index_invariant:
  assumes "\<And>s. up (up s) = up s"
  shows "distinct (map fst (parseTSV up t))
     \<and> (\<forall>(key, es) \<in> set (parseTSV up t).
          length key = 2 \<and> up key = key \<and> es \<noteq> [] \<and>
          (\<forall>(note, value) \<in> set es. value \<noteq> []))
     \<and> index_to_js (parseTSV up t) =
          JObj (map (\<lambda>(key, es). (key, JArr (map (\<lambda>(note, value). JArr [JStr note, JStr value]) es)))
                  (parseTSV up t))"
proof -
  have "index_ok up (parseTSV up t)"
    using assms by (rule index_ok_parseTSV)
  moreover have "entry_to_js = (\<lambda>(note, value). JArr [JStr note, JStr value])"
    by (auto simp: entry_to_js_def)
  ultimately show ?thesis
    by (simp add: index_ok_def index_to_js_def)
qed

theorem parseTSV_index_invariant_witness:
  "(\<forall>s. ascii_upper (ascii_upper s) = ascii_upper s)
   \<and> (str ''AB'', [(str ''note1'', str ''valueX'')]) \<in> set (parseTSV ascii_upper line_three_fields)
   \<and> length (str ''AB'') = 2 \<and> ascii_upper (str ''AB'') = str ''AB''
   \<and> str ''valueX'' \<noteq> []
   \<and> index_to_js (parseTSV ascii_upper line_three_fields) =
       JObj [(str ''AB'', JArr [JArr [JStr (str ''note1''), JStr (str ''valueX'')]])]"
proof -
  have m: "parseTSV ascii_upper line_three_fields = [(str ''AB'', [(str ''note1'', str ''valueX'')])]"
    by code_simp
  from parseTSV_index_invariant [of ascii_upper line_three_fields, OF ascii_upper_idem]
  show ?thesis
    unfolding m by (simp add: ascii_upper_idem)
qed

text \<open>
  C3. A line that is not blank and that the validation gate accepts stores one entry. With
  three or more tab-separated fields the entry goes to the end of the sequence under the
  upper-cased trimmed field 1, with the trimmed field 0 as note and the trimmed field 2 as
  value; with exactly two fields it goes under the upper-cased trimmed field 0, with the
  empty note and the trimmed field 1 as value. The entry is still under that key in the
  index that \<open>parseTSV\<close> returns for a text that has this line.
\<close>

theorem parseTSV_line_stores:
  assumes "trim (remove_cr line) \<noteq> []"
  shows "(3 \<le> length (line_cols line) \<and> length (up (trim (line_cols line ! 1))) = 2
            \<and> trim (line_cols line ! 2) \<noteq> [] \<longrightarrow>
          get_entries (parseTSV_line up out line) (up (trim (line_cols line ! 1)))
            = Some (entries_of out (up (trim (line_cols line ! 1)))
                    @ [(trim (line_cols line ! 0), trim (line_cols line ! 2))])
          \<and> (line \<in> set (split_on LF t) \<longrightarrow>
               (trim (line_cols line ! 0), trim (line_cols line ! 2))
                 \<in> set (entries_of (parseTSV up t) (up (trim (line_cols line ! 1))))))
       \<and> (length (line_cols line) = 2 \<and> length (up (trim (line_cols line ! 0))) = 2
            \<and> trim (line_cols line ! 1) \<noteq> [] \<longrightarrow>
          get_entries (parseTSV_line up out line) (up (trim (line_cols line ! 0)))
            = Some (entries_of out (up (trim (line_cols line ! 0)))
                    @ [([], trim (line_cols line ! 1))])
          \<and> (line \<in> set (split_on LF t) \<longrightarrow>
               ([], trim (line_cols line ! 1))
                 \<in> set (entries_of (parseTSV up t) (up (trim (line_cols line ! 0))))))"
proof (intro conjI impI)
  assume a: "3 \<le> length (line_cols line) \<and> length (up (trim (line_cols line ! 1))) = 2
            \<and> trim (line_cols line ! 2) \<noteq> []"
  have step: "get_entries (parseTSV_line up out' line) (up (trim (line_cols line ! 1)))
            = Some (entries_of out' (up (trim (line_cols line ! 1)))
                    @ [(trim (line_cols line ! 0), trim (line_cols line ! 2))])" for out'
    using assms a by (simp add: parseTSV_line_accept3 get_entries_store)
  show "get_entries (parseTSV_line up out line) (up (trim (line_cols line ! 1)))
            = Some (entries_of out (up (trim (line_cols line ! 1)))
                    @ [(trim (line_cols line ! 0), trim (line_cols line ! 2))])"
    by (rule step)
  assume "line \<in> set (split_on LF t)"
  then show "(trim (line_cols line ! 0), trim (line_cols line ! 2))
                 \<in> set (entries_of (parseTSV up t) (up (trim (line_cols line ! 1))))"
    unfolding parseTSV_def
    by (rule entries_of_line_member) (simp only: entries_of_def [of "parseTSV_line up _ line"] step option.case, simp)
next
  assume a: "length (line_cols line) = 2 \<and> length (up (trim (line_cols line ! 0))) = 2
            \<and> trim (line_cols line ! 1) \<noteq> []"
  have step: "get_entries (parseTSV_line up out' line) (up (trim (line_cols line ! 0)))
            = Some (entries_of out' (up (trim (line_cols line ! 0)))
                    @ [([], trim (line_cols line ! 1))])" for out'
    using assms a by (simp add: parseTSV_line_accept2 get_entries_store)
  show "get_entries (parseTSV_line up out line) (up (trim (line_cols line ! 0)))
            = Some (entries_of out (up (trim (line_cols line ! 0)))
                    @ [([], trim (line_cols line ! 1))])"
    by (rule step)
  assume "line \<in> set (split_on LF t)"
  then show "([], trim (line_cols line ! 1))
                 \<in> set (entries_of (parseTSV up t) (up (trim (line_cols line ! 0))))"
    unfolding parseTSV_def
    by (rule entries_of_line_member) (simp only: entries_of_def [of "parseTSV_line up _ line"] step option.case, simp)
qed

theorem parseTSV_line_stores_witness:
  "trim (remove_cr line_three_fields) \<noteq> [] \<and> 3 \<le> length (line_cols line_three_fields)
   \<and> length (ascii_upper (trim (line_cols line_three_fields ! 1))) = 2
   \<and> trim (line_cols line_three_fields ! 2) \<noteq> []
   \<and> get_entries (parseTSV_line ascii_upper [] line_three_fields) (str ''AB'')
       = Some [(str ''note1'', str ''valueX'')]
   \<and> line_three_fields \<in> set (split_on LF (line_two_fields @ [LF] @ line_three_fields @ [LF]))
   \<and> (str ''note1'', str ''valueX'')
       \<in> set (entries_of (parseTSV ascii_upper (line_two_fields @ [LF] @ line_three_fields @ [LF]))
                (str ''AB''))
   \<and> trim (remove_cr line_two_fields) \<noteq> [] \<and> length (line_cols line_two_fields) = 2
   \<and> length (ascii_upper (trim (line_cols line_two_fields ! 0))) = 2
   \<and> trim (line_cols line_two_fields ! 1) \<noteq> []
   \<and> get_entries (parseTSV_line ascii_upper [] line_two_fields) (str ''AB'')
       = Some [([], str ''valueY'')]"
proof -
  have h3: "trim (remove_cr line_three_fields) \<noteq> []"
    and c3: "line_cols line_three_fields = [str ''note1'', str ''ab'', str ''valueX'']"
    and m3: "line_three_fields \<in> set (split_on LF (line_two_fields @ [LF] @ line_three_fields @ [LF]))"
    by code_simp+
  have h2: "trim (remove_cr line_two_fields) \<noteq> []"
    and c2: "line_cols line_two_fields = [str ''AB'', str ''valueY'']"
    by code_simp+
  have t: "trim (str ''note1'') = str ''note1''" "trim (str ''valueX'') = str ''valueX''"
    "trim (str ''valueY'') = str ''valueY''" "ascii_upper (trim (str ''ab'')) = str ''AB''"
    "ascii_upper (trim (str ''AB'')) = str ''AB''" "str ''valueX'' \<noteq> []" "str ''valueY'' \<noteq> []"
    "length (str ''AB'') = 2" "entries_of [] (str ''AB'') = []"
    by code_simp+
  from parseTSV_line_stores [OF h3, of ascii_upper "[]" "line_two_fields @ [LF] @ line_three_fields @ [LF]"]
    parseTSV_line_stores [OF h2, of ascii_upper "[]" "[]"] h3 h2 m3
  show ?thesis
    unfolding c3 c2 by (simp add: t)
qed

text \<open>
  C4. A line with fewer than two tab-separated fields, or whose key, as the gate tests it
  (the field trimmed and upper-cased), does not have exactly two code units, or whose
  trimmed value is empty, leaves the index as it was: the loop goes on to the next line
  and nothing is raised (the parser has no failing branch). The index for a list of lines
  is the index for the list without such a line.
\<close>

theorem parseTSV_line_discards:
  assumes "length (line_cols line) < 2
     \<or> (length (line_cols line) = 2 \<and>
          (length (up (trim (line_cols line ! 0))) \<noteq> 2 \<or> trim (line_cols line ! 1) = []))
     \<or> (3 \<le> length (line_cols line) \<and>
          (length (up (trim (line_cols line ! 1))) \<noteq> 2 \<or> trim (line_cols line ! 2) = []))"
  shows "parseTSV_line up out line = out
     \<and> parseTSV_loop up out (before @ line # after) = parseTSV_loop up out (before @ after)"
proof -
  have one: "parseTSV_line up out' line = out'" for out'
    using assms by (auto simp: parseTSV_line_def line_cols_def pick_fields_def Let_def)
  have "parseTSV_loop up out' (before @ line # after) = parseTSV_loop up out' (before @ after)" for out'
    by (induction before arbitrary: out') (simp_all add: one)
  with one show ?thesis by simp
qed

theorem parseTSV_line_discards_witness:
  "3 \<le> length (line_cols line_short_key)
   \<and> length (ascii_upper (trim (line_cols line_short_key ! 1))) \<noteq> 2
   \<and> parseTSV_line ascii_upper two_entries line_short_key = two_entries
   \<and> parseTSV_loop ascii_upper [] ([line_two_fields] @ line_short_key # [line_three_fields])
       = parseTSV_loop ascii_upper [] ([line_two_fields] @ [line_three_fields])
   \<and> parseTSV ascii_upper (line_short_key @ [LF]) = []"
proof -
  have h: "3 \<le> length (line_cols line_short_key)
      \<and> length (ascii_upper (trim (line_cols line_short_key ! 1))) \<noteq> 2"
    by code_simp
  have e: "parseTSV ascii_upper (line_short_key @ [LF]) = []"
    by code_simp
  from h e parseTSV_line_discards [of line_short_key ascii_upper two_entries "[line_two_fields]" "[line_three_fields]"]
    parseTSV_line_discards [of line_short_key ascii_upper "[]" "[line_two_fields]" "[line_three_fields]"]
  show ?thesis by simp
qed

section \<open>The Lookup Engine: the first entry wins\<close>






lemma length_str: "length (str s) = length s"
  by (simp add: str_def)

lemma two_units_not_inherited: "length key = 2 \<Longrightarrow> object_prototype_member key = None"
proof -
  assume k: "length key = 2"
  have "\<forall>n \<in> set (map fst object_prototype_table). length n \<noteq> 2"
    by (simp add: object_prototype_table_def length_str)
  with k have "key \<notin> set (map fst object_prototype_table)"
    by blast
  then show ?thesis
    unfolding object_prototype_member_def by (simp add: map_of_eq_None_iff)
qed











section \<open>The Acquisition Controller\<close>

lemma fetch_try_failed:
  assumes "retrieval_failed (cornerFetch e)" and "retrieval_failed (edgeFetch e)"
  shows "fetch_try up e st =
     fetch_failed (st\<lparr>status := (Updating, None), refreshDisabled := True, fetches := fetches st + 2\<rparr>)"
  using assms
  by (auto simp: fetch_try_def retrieval_failed_def Let_def split: retrieval.splits)

text \<open>
  C6. When both retrievals of a refresh fail (a rejected promise or a response that is not
  ok) and \<open>loadCache\<close> gives nothing to fall back on (no snapshot in the slot; more
  generally any result that is not truthy), the refresh ends with the status "No data
  available", and \<open>dataCorner\<close> and \<open>dataEdge\<close> are what they were before it.
\<close>

theorem refresh_without_data:
  assumes "retrieval_failed (cornerFetch e)" and "retrieval_failed (edgeFetch e)"
    and "\<not> truthy (loadCache st)"
  shows "status (fetchData up e st) = (NoDataAvailable, None)
       \<and> dataCorner (fetchData up e st) = dataCorner st
       \<and> dataEdge (fetchData up e st) = dataEdge st"
  using assms(3)
  by (simp add: fetchData_def fetch_try_failed [OF assms(1,2)] fetch_failed_def loadCache_def Let_def)

theorem refresh_without_data_witness:
  "retrieval_failed (cornerFetch offline_env) \<and> retrieval_failed (edgeFetch offline_env)
   \<and> storage (initial_state None) = None
   \<and> \<not> truthy (loadCache (initial_state None))
   \<and> status (fetchData ascii_upper offline_env (initial_state None)) = (NoDataAvailable, None)
   \<and> dataCorner (fetchData ascii_upper offline_env (initial_state None)) = JObj []
   \<and> dataEdge (fetchData ascii_upper offline_env (initial_state None)) = JObj []"
proof -
  have c: "retrieval_failed (cornerFetch offline_env)" and e: "retrieval_failed (edgeFetch offline_env)"
    by (simp_all add: retrieval_failed_def offline_env_def)
  have s: "storage (initial_state None) = None"
    and d: "dataCorner (initial_state None) = JObj []" "dataEdge (initial_state None) = JObj []"
    by (simp_all add: initial_state_def)
  have l: "\<not> truthy (loadCache (initial_state None))"
    by (simp add: loadCache_def loadCache_raw_def s)
  from refresh_without_data [OF c e l, of ascii_upper] c e s l d
  show ?thesis by simp
qed


section \<open>The Cache Store: what \<open>loadCache\<close> returns\<close>

lemma JSON_parse_empty: "JSON_parse [] = None"
  by (simp add: JSON_parse_def skip_ws_def)

text \<open>
  C10, as the claim states it, fails at both ends. The payload \<open>null\<close> is valid JSON, and
  \<open>loadCache\<close> returns \<open>null\<close> for it, as for a missing payload. The payload \<open>false\<close> is
  valid JSON and is returned as it is, but the controller does not adopt its fields: the
  test \<open>if (cache)\<close> fails, \<open>init\<close> goes on to fetch (two calls), and the data stay the
  empty objects of the start instead of becoming \<open>undefined\<close>.
\<close>

theorem loadCache_falsy_counterexample:
  "JSON_parse (str ''null'') = Some JNull
   \<and> loadCache_raw (Some (str ''null'')) = JNull
   \<and> JSON_parse (str ''false'') = Some (JBool False)
   \<and> loadCache_raw (Some (str ''false'')) = JBool False
   \<and> dataCorner (init ascii_upper offline_env (initial_state (Some (str ''false'')))) = JObj []
   \<and> dataEdge (init ascii_upper offline_env (initial_state (Some (str ''false'')))) = JObj []
   \<and> fetches (init ascii_upper offline_env (initial_state (Some (str ''false'')))) = 2
   \<and> status (init ascii_upper offline_env (initial_state (Some (str ''false''))))
        = (NoDataAvailable, None)"
  by code_simp

text \<open>
  C10, amended. \<open>loadCache\<close> returns \<open>null\<close> exactly when the payload is missing, is the
  empty string, is not valid JSON, or is the JSON text \<open>null\<close>; every other valid JSON
  text is returned as the value it denotes, without any check of its structure. The
  controller adopts the fields \<open>corner\<close> and \<open>edge\<close> of the returned value exactly when
  the value is truthy (any object or array, a non-zero number, a non-empty string,
  \<open>true\<close>); for a truthy value that is not an object both fields are \<open>undefined\<close>. For
  \<open>null\<close>, \<open>false\<close>, \<open>0\<close> and the empty string \<open>init\<close> fetches, as without a cache.
\<close>

theorem loadCache_unvalidated:
  "(loadCache_raw raw = JNull \<longleftrightarrow>
      raw = None \<or> raw = Some [] \<or>
      (\<exists>r. raw = Some r \<and> (JSON_parse r = None \<or> JSON_parse r = Some JNull)))
   \<and> (JSON_parse r = Some v \<longrightarrow> loadCache_raw (Some r) = v)
   \<and> (truthy (loadCache st) \<longrightarrow>
        dataCorner (init up e st) = field_or_undefined (loadCache st) (str ''corner'') \<and>
        dataEdge (init up e st) = field_or_undefined (loadCache st) (str ''edge'') \<and>
        dataCorner (fetch_failed st) = field_or_undefined (loadCache st) (str ''corner'') \<and>
        dataEdge (fetch_failed st) = field_or_undefined (loadCache st) (str ''edge''))
   \<and> (truthy w \<and> (\<forall>ps. w \<noteq> JObj ps) \<longrightarrow> field_or_undefined w name = JUndefined)
   \<and> (\<not> truthy (loadCache st) \<longrightarrow>
        init up e st = fetchData up e (st\<lparr>status := (NoCacheFetching, None)\<rparr>) \<and>
        dataCorner (fetch_failed st) = dataCorner st \<and> dataEdge (fetch_failed st) = dataEdge st)"
proof -
  have "field_or_undefined w name = JUndefined" if "truthy w" "\<forall>ps. w \<noteq> JObj ps"
    using that by (cases w) (simp_all add: field_or_undefined_def)
  then show ?thesis
    by (auto simp: loadCache_raw_def JSON_parse_empty init_def fetch_failed_def Let_def
        split: option.splits)
qed

theorem loadCache_unvalidated_witness:
  "loadCache_raw None = JNull \<and> loadCache_raw (Some (str ''null'')) = JNull
   \<and> JSON_parse (str ''[7]'') = Some (JArr [JNum 7])
   \<and> loadCache_raw (Some (str ''[7]'')) = JArr [JNum 7]
   \<and> truthy (loadCache (initial_state (Some (str ''[7]''))))
   \<and> dataCorner (init ascii_upper offline_env (initial_state (Some (str ''[7]'')))) = JUndefined
   \<and> dataEdge (init ascii_upper offline_env (initial_state (Some (str ''[7]'')))) = JUndefined
   \<and> \<not> truthy (loadCache (initial_state (Some (str ''false''))))
   \<and> init ascii_upper offline_env (initial_state (Some (str ''false'')))
       = fetchData ascii_upper offline_env
           ((initial_state (Some (str ''false'')))\<lparr>status := (NoCacheFetching, None)\<rparr>)"
proof -
  have p: "JSON_parse (str ''[7]'') = Some (JArr [JNum 7])"
    and n: "JSON_parse (str ''null'') = Some JNull"
    and f: "JSON_parse (str ''false'') = Some (JBool False)"
    by code_simp+
  have l7: "loadCache (initial_state (Some (str ''[7]''))) = JArr [JNum 7]"
    and lf: "loadCache (initial_state (Some (str ''false''))) = JBool False"
    by code_simp+
  have t7: "truthy (JArr [JNum 7]) \<and> (\<forall>ps. JArr [JNum 7] \<noteq> JObj ps)"
    by simp
  from loadCache_unvalidated [of None "str ''[7]''" "JArr [JNum 7]"
        "initial_state (Some (str ''[7]''))" ascii_upper offline_env "JArr [JNum 7]" "str ''corner''"]
    loadCache_unvalidated [of "Some (str ''null'')" "str ''[7]''" "JArr [JNum 7]"
        "initial_state (Some (str ''false''))" ascii_upper offline_env "JArr [JNum 7]" "str ''edge''"]
    p n l7 lf t7
  show ?thesis by simp
qed

section \<open>The Cache Store: JSON text and back\<close>

text \<open>
  From here on the recursive equations of the parser and of \<open>show_nat\<close> are applied one
  step at a time.
\<close>

declare show_nat.simps [simp del]
declare parse_value.simps [simp del] parse_elements.simps [simp del] parse_members.simps [simp del]

subsection \<open>Strings\<close>

lemma unat_hex_digit: "n < 16 \<Longrightarrow> unat (hex_digit n) = (if n < 10 then 48 + n else 87 + n)"
  by (auto simp: hex_digit_def unat_of_nat simp del: of_nat_add)

lemma hex_val_hex_digit: "n < 16 \<Longrightarrow> hex_val (hex_digit n) = Some n"
  by (simp add: hex_val_def word_le_nat_alt unat_hex_digit)

lemma nat_hex_recompose:
  "4096 * (u div 4096) + 256 * (u div 256 mod 16) + 16 * (u div 16 mod 16) + u mod 16 = (u::nat)"
proof -
  have a: "u div 256 = u div 16 div 16" and b: "u div 4096 = u div 256 div 16"
    by (simp_all add: div_mult2_eq [symmetric])
  have "u = 16 * (u div 16) + u mod 16"
    by simp
  also have "u div 16 = 16 * (u div 256) + u div 16 mod 16"
    unfolding a by simp
  also have "u div 256 = 16 * (u div 4096) + u div 256 mod 16"
    unfolding b by simp
  finally show ?thesis
    by (simp add: algebra_simps)
qed

lemma hex_recompose:
  fixes c :: code_unit
  shows "of_nat (4096 * (unat c div 4096) + 256 * (unat c div 256 mod 16)
           + 16 * (unat c div 16 mod 16) + unat c mod 16) = c"
  unfolding nat_hex_recompose by simp

lemma unat_code_unit_bound:
  fixes c :: code_unit
  shows "unat c div 4096 < 16"
proof -
  have "unat c < 2 ^ 16"
    using unsigned_less [of c] by simp
  then show ?thesis by simp
qed

lemma parse_unicode_escape:
  "parse_string_body (unicode_escape c @ t) =
     (case parse_string_body t of None \<Rightarrow> None | Some (u, rest) \<Rightarrow> Some (c # u, rest))"
  by (simp add: unicode_escape_def hex_val_hex_digit unat_code_unit_bound hex_recompose
      del: of_nat_add of_nat_mult of_nat_numeral split: option.splits)

lemma parse_simple_escape:
  "unescape e = Some u \<Longrightarrow> e \<noteq> 0x75 \<Longrightarrow>
     parse_string_body (0x5C # e # t) =
       (case parse_string_body t of None \<Rightarrow> None | Some (x, rest) \<Rightarrow> Some (u # x, rest))"
  by simp

lemma parse_literal_unit:
  "c \<noteq> 0x22 \<Longrightarrow> c \<noteq> 0x5C \<Longrightarrow> \<not> c < 0x20 \<Longrightarrow>
     parse_string_body (c # t) =
       (case parse_string_body t of None \<Rightarrow> None | Some (x, rest) \<Rightarrow> Some (c # x, rest))"
  by simp

lemma parse_closing_quote: "parse_string_body (0x22 # rest) = Some ([], rest)"
  by simp

lemma surrogate_is_literal:
  "is_high_surrogate c \<or> is_low_surrogate c \<Longrightarrow> c \<noteq> 0x22 \<and> c \<noteq> 0x5C \<and> \<not> c < 0x20"
  by (auto simp: is_high_surrogate_def is_low_surrogate_def word_le_nat_alt word_less_nat_alt)

lemma parse_quote_chars:
  "parse_string_body (quote_chars s @ 0x22 # rest) = Some (s, rest)"
proof (induction s rule: quote_chars.induct)
  case 1
  show ?case by simp
next
  case (2 c r)
  consider (b) "c = 0x08" | (t) "c = 0x09" | (n) "c = 0x0A" | (f) "c = 0x0C" | (r) "c = 0x0D"
    | (q) "c = 0x22" | (s) "c = 0x5C"
    | (ctl) "c \<noteq> 0x08" "c \<noteq> 0x09" "c \<noteq> 0x0A" "c \<noteq> 0x0C" "c \<noteq> 0x0D" "c \<noteq> 0x22" "c \<noteq> 0x5C" "c < 0x20"
    | (hi_end) "c \<noteq> 0x08" "c \<noteq> 0x09" "c \<noteq> 0x0A" "c \<noteq> 0x0C" "c \<noteq> 0x0D" "c \<noteq> 0x22" "c \<noteq> 0x5C" "\<not> c < 0x20"
        "is_high_surrogate c" "r = []"
    | (hi_pair) d r1 where "c \<noteq> 0x08" "c \<noteq> 0x09" "c \<noteq> 0x0A" "c \<noteq> 0x0C" "c \<noteq> 0x0D" "c \<noteq> 0x22" "c \<noteq> 0x5C" "\<not> c < 0x20"
        "is_high_surrogate c" "r = d # r1" "is_low_surrogate d"
    | (hi_lone) d r1 where "c \<noteq> 0x08" "c \<noteq> 0x09" "c \<noteq> 0x0A" "c \<noteq> 0x0C" "c \<noteq> 0x0D" "c \<noteq> 0x22" "c \<noteq> 0x5C" "\<not> c < 0x20"
        "is_high_surrogate c" "r = d # r1" "\<not> is_low_surrogate d"
    | (lo) "c \<noteq> 0x08" "c \<noteq> 0x09" "c \<noteq> 0x0A" "c \<noteq> 0x0C" "c \<noteq> 0x0D" "c \<noteq> 0x22" "c \<noteq> 0x5C" "\<not> c < 0x20"
        "\<not> is_high_surrogate c" "is_low_surrogate c"
    | (plain) "c \<noteq> 0x08" "c \<noteq> 0x09" "c \<noteq> 0x0A" "c \<noteq> 0x0C" "c \<noteq> 0x0D" "c \<noteq> 0x22" "c \<noteq> 0x5C" "\<not> c < 0x20"
        "\<not> is_high_surrogate c" "\<not> is_low_surrogate c"
    by (cases r) blast+
  then show ?case
  proof cases
    case b
    with "2.IH"(1) show ?thesis by (simp add: unescape_def)
  next
    case t
    with "2.IH"(2) show ?thesis by (simp add: unescape_def)
  next
    case n
    with "2.IH"(3) show ?thesis by (simp add: unescape_def)
  next
    case f
    with "2.IH"(4) show ?thesis by (simp add: unescape_def)
  next
    case r
    with "2.IH"(5) show ?thesis by (simp add: unescape_def)
  next
    case q
    with "2.IH"(6) show ?thesis by (simp add: unescape_def)
  next
    case s
    with "2.IH"(7) show ?thesis by (simp add: unescape_def)
  next
    case ctl
    with "2.IH"(8) show ?thesis
      by (simp add: parse_unicode_escape del: parse_string_body.simps)
  next
    case hi_end
    then show ?thesis
      by (simp add: parse_unicode_escape parse_closing_quote del: parse_string_body.simps)
  next
    case hi_pair
    with "2.IH"(9) [of d r1] surrogate_is_literal [of d] show ?thesis
      by (simp add: parse_literal_unit del: parse_string_body.simps)
  next
    case hi_lone
    with "2.IH"(10) [of d r1] show ?thesis
      by (simp add: parse_unicode_escape del: parse_string_body.simps)
  next
    case lo
    with "2.IH"(11) show ?thesis
      by (simp add: parse_unicode_escape del: parse_string_body.simps)
  next
    case plain
    with "2.IH"(12) show ?thesis
      by (simp add: parse_literal_unit del: parse_string_body.simps)
  qed
qed

subsection \<open>The time stamp\<close>

lemma unat_digit_unit: "d < 10 \<Longrightarrow> unat (of_nat (48 + d) :: code_unit) = 48 + d"
  by (simp add: unat_of_nat del: of_nat_add)

lemma is_digit_unit: "d < 10 \<Longrightarrow> is_digit (of_nat (48 + d))"
  by (simp add: is_digit_def word_le_nat_alt unat_digit_unit del: of_nat_add)

lemma digit_val_unit: "d < 10 \<Longrightarrow> digit_val (of_nat (48 + d)) = d"
  by (simp add: digit_val_def unat_digit_unit del: of_nat_add)

lemma show_nat_digits: "list_all is_digit (show_nat n)"
proof (induction n rule: show_nat.induct)
  case (1 n)
  show ?case
  proof (cases "n < 10")
    case True
    then show ?thesis
      by (subst show_nat.simps) (simp add: is_digit_unit del: of_nat_add)
  next
    case False
    with 1 show ?thesis
      by (subst show_nat.simps) (simp add: is_digit_unit del: of_nat_add)
  qed
qed

lemma show_nat_nonempty: "show_nat n \<noteq> []"
  by (subst show_nat.simps) simp

lemma digits_val_snoc: "digits_val (ds @ [d]) = 10 * digits_val ds + digit_val d"
  by (simp add: digits_val_def)

lemma digits_val_show_nat: "digits_val (show_nat n) = n"
proof (induction n rule: show_nat.induct)
  case (1 n)
  show ?case
  proof (cases "n < 10")
    case True
    then show ?thesis
      by (subst show_nat.simps) (simp add: digits_val_def digit_val_unit del: of_nat_add)
  next
    case False
    with 1 show ?thesis
      by (subst show_nat.simps) (simp add: digits_val_snoc digit_val_unit del: of_nat_add)
  qed
qed

lemma show_nat_no_leading_zero:
  assumes "show_nat n = d # ds" and "d = 0x30"
  shows "ds = []"
  using assms
proof (induction n arbitrary: ds rule: show_nat.induct)
  case (1 n)
  show ?case
  proof (cases "n < 10")
    case True
    with "1.prems" show ?thesis
      by (subst (asm) show_nat.simps) simp
  next
    case False
    obtain ds' where h: "show_nat (n div 10) = d # ds'"
      using "1.prems"(1) False show_nat_nonempty [of "n div 10"]
      by (subst (asm) show_nat.simps) (cases "show_nat (n div 10)"; simp)
    with "1.IH" False "1.prems"(2) have "ds' = []"
      by simp
    with h "1.prems"(2) have "digits_val (show_nat (n div 10)) = 0"
      by (simp add: digits_val_def digit_val_def)
    then have "n div 10 = 0"
      by (simp add: digits_val_show_nat)
    with False show ?thesis by simp
  qed
qed

lemma takeWhile_digits:
  "list_all is_digit ds \<Longrightarrow> \<not> is_digit c \<Longrightarrow> takeWhile is_digit (ds @ c # r) = ds"
  by (induction ds) simp_all

lemma dropWhile_digits:
  "list_all is_digit ds \<Longrightarrow> \<not> is_digit c \<Longrightarrow> dropWhile is_digit (ds @ c # r) = c # r"
  by (induction ds) simp_all

lemma comma_not_digit: "\<not> is_digit 0x2C"
  by (simp add: is_digit_def)

lemma parse_int_part_show_nat:
  "parse_int_part (show_nat n @ 0x2C # rest) = Some (show_nat n, 0x2C # rest)"
proof -
  obtain d ds where s: "show_nat n = d # ds"
    using show_nat_nonempty [of n] by (cases "show_nat n") auto
  have z: "\<not> (d = 0x30 \<and> ds \<noteq> [])"
    using show_nat_no_leading_zero [OF s] by blast
  have tw: "takeWhile is_digit (show_nat n @ 0x2C # rest) = d # ds"
    using takeWhile_digits [OF show_nat_digits comma_not_digit, of n rest] s by simp
  have dw: "dropWhile is_digit (show_nat n @ 0x2C # rest) = 0x2C # rest"
    using dropWhile_digits [OF show_nat_digits comma_not_digit, of n rest] by simp
  show ?thesis
    unfolding parse_int_part_def tw dw using z s by simp
qed

lemma parse_sign_show_nat: "parse_sign (show_nat n @ r) = (False, show_nat n @ r)"
proof -
  obtain d ds where s: "show_nat n = d # ds"
    using show_nat_nonempty [of n] by (cases "show_nat n") auto
  have "is_digit d"
    using show_nat_digits [of n] s by simp
  then have "d \<noteq> 0x2D"
    by (auto simp: is_digit_def)
  with s show ?thesis
    by (simp add: parse_sign_def)
qed

lemma parse_number_show_nat:
  "parse_number (show_nat n @ 0x2C # rest) = Some (of_nat n, 0x2C # rest)"
  by (simp add: parse_number_def parse_sign_show_nat parse_int_part_show_nat parse_frac_def
      parse_exp_def num_value_def digits_val_show_nat)

lemma skip_ws_nonws: "\<not> is_json_ws c \<Longrightarrow> skip_ws (c # r) = c # r"
  by (simp add: skip_ws_def)

lemma parse_value_show_nat:
  "parse_value (show_nat n @ 0x2C # rest) = Some (JNum (of_nat n), 0x2C # rest)"
proof -
  obtain d ds where s: "show_nat n = d # ds"
    using show_nat_nonempty [of n] by (cases "show_nat n") auto
  have d: "is_digit d"
    using show_nat_digits [of n] s by simp
  then have "\<not> is_json_ws d" "d \<noteq> 0x5B" "d \<noteq> 0x7B" "d \<noteq> 0x22"
    by (auto simp: is_digit_def is_json_ws_def)
  with d parse_number_show_nat [of n rest] show ?thesis
    unfolding s by (subst parse_value.simps) (simp add: skip_ws_nonws)
qed

lemma parse_value_string:
  "parse_value (stringify_string s @ rest) = Some (JStr s, rest)"
  by (subst parse_value.simps)
    (simp add: stringify_string_def skip_ws_nonws is_json_ws_def parse_quote_chars
      del: parse_string_body.simps)

subsection \<open>Arrays and objects\<close>

lemma parse_elements_more:
  assumes "parse_value (sv @ 0x2C # cont) = Some (v, 0x2C # cont)"
  shows "parse_elements acc (sv @ 0x2C # cont) = parse_elements (acc @ [v]) cont"
  by (subst parse_elements.simps) (simp add: assms skip_ws_nonws is_json_ws_def)

lemma parse_elements_last:
  assumes "parse_value (sv @ 0x5D # rest) = Some (v, 0x5D # rest)"
  shows "parse_elements acc (sv @ 0x5D # rest) = Some (JArr (acc @ [v]), rest)"
  by (subst parse_elements.simps) (simp add: assms skip_ws_nonws is_json_ws_def)

lemma parse_members_more:
  assumes "parse_value (sv @ 0x2C # cont) = Some (v, 0x2C # cont)"
  shows "parse_members acc (stringify_string k @ 0x3A # sv @ 0x2C # cont)
           = parse_members (obj_put k v acc) cont"
  by (subst parse_members.simps)
    (simp add: assms stringify_string_def skip_ws_nonws is_json_ws_def parse_quote_chars
      del: parse_string_body.simps)

lemma parse_members_last:
  assumes "parse_value (sv @ 0x7D # rest) = Some (v, 0x7D # rest)"
  shows "parse_members acc (stringify_string k @ 0x3A # sv @ 0x7D # rest)
           = Some (JObj (obj_put k v acc), rest)"
  by (subst parse_members.simps)
    (simp add: assms stringify_string_def skip_ws_nonws is_json_ws_def parse_quote_chars
      del: parse_string_body.simps)

lemma parse_value_empty_array: "parse_value (0x5B # 0x5D # rest) = Some (JArr [], rest)"
  by (subst parse_value.simps) (simp add: skip_ws_nonws is_json_ws_def)

lemma parse_value_array:
  "\<not> is_json_ws c \<Longrightarrow> c \<noteq> 0x5D \<Longrightarrow> parse_value (0x5B # c # r) = parse_elements [] (c # r)"
  by (subst parse_value.simps) (simp add: skip_ws_nonws is_json_ws_def)

lemma parse_value_empty_object: "parse_value (0x7B # 0x7D # rest) = Some (JObj [], rest)"
  by (subst parse_value.simps) (simp add: skip_ws_nonws is_json_ws_def)

lemma parse_value_object:
  "parse_value (0x7B # 0x22 # r) = parse_members [] (0x22 # r)"
  by (subst parse_value.simps) (simp add: skip_ws_nonws is_json_ws_def)

lemma parse_value_entry:
  "parse_value (stringify_entry e @ rest) = Some (entry_to_js e, rest)"
proof -
  have "parse_value (stringify_entry e @ rest)
      = parse_elements [] (stringify_string (fst e) @ 0x2C # stringify_string (snd e) @ 0x5D # rest)"
    by (simp add: stringify_entry_def stringify_string_def parse_value_array is_json_ws_def)
  also have "\<dots> = parse_elements ([] @ [JStr (fst e)]) (stringify_string (snd e) @ 0x5D # rest)"
    by (rule parse_elements_more) (rule parse_value_string)
  also have "\<dots> = Some (JArr (([] @ [JStr (fst e)]) @ [JStr (snd e)]), rest)"
    by (rule parse_elements_last) (rule parse_value_string)
  finally show ?thesis
    by (simp add: entry_to_js_def)
qed

lemma parse_elements_entries:
  "es \<noteq> [] \<Longrightarrow>
     parse_elements acc (join_with 0x2C (map stringify_entry es) @ 0x5D # rest)
       = Some (JArr (acc @ map entry_to_js es), rest)"
proof (induction es arbitrary: acc)
  case Nil
  then show ?case by simp
next
  case (Cons e es)
  show ?case
  proof (cases es)
    case Nil
    then show ?thesis
      using parse_elements_last [OF parse_value_entry, of acc e rest] by simp
  next
    case (Cons e' es')
    have "parse_elements acc (join_with 0x2C (map stringify_entry (e # es)) @ 0x5D # rest)
        = parse_elements acc (stringify_entry e @ 0x2C # join_with 0x2C (map stringify_entry es) @ 0x5D # rest)"
      using Cons by simp
    also have "\<dots> = parse_elements (acc @ [entry_to_js e]) (join_with 0x2C (map stringify_entry es) @ 0x5D # rest)"
      by (rule parse_elements_more) (rule parse_value_entry)
    also have "\<dots> = Some (JArr ((acc @ [entry_to_js e]) @ map entry_to_js es), rest)"
      using Cons by (intro Cons.IH) simp
    finally show ?thesis by simp
  qed
qed

lemma stringify_entry_head: "\<exists>r. stringify_entry e = 0x5B # r"
  by (simp add: stringify_entry_def)

lemma parse_value_entries:
  "parse_value (stringify_entries es @ rest) = Some (JArr (map entry_to_js es), rest)"
proof (cases es)
  case Nil
  then show ?thesis
    by (simp add: stringify_entries_def parse_value_empty_array)
next
  case (Cons e es')
  obtain r where r: "stringify_entry e = 0x5B # r"
    using stringify_entry_head by blast
  have "\<exists>r'. join_with 0x2C (map stringify_entry es) = 0x5B # r'"
    using Cons r by (cases es') simp_all
  then obtain r' where r': "join_with 0x2C (map stringify_entry es) = 0x5B # r'"
    by blast
  have "parse_value (stringify_entries es @ rest)
      = parse_elements [] (join_with 0x2C (map stringify_entry es) @ 0x5D # rest)"
    unfolding stringify_entries_def r'
    by (simp add: parse_value_array is_json_ws_def)
  also have "\<dots> = Some (JArr ([] @ map entry_to_js es), rest)"
    using Cons by (intro parse_elements_entries) simp
  finally show ?thesis by simp
qed


lemma index_to_js_members: "index_to_js idx = JObj (map member_to_js idx)"
  by (simp add: index_to_js_def member_to_js_def [abs_def] case_prod_beta)

lemma obj_put_new: "k \<notin> set (map fst ps) \<Longrightarrow> obj_put k v ps = ps @ [(k, v)]"
  by (simp add: obj_put_def)

lemma parse_members_index:
  "ms \<noteq> [] \<Longrightarrow> distinct (map fst acc @ map fst ms) \<Longrightarrow>
     parse_members acc (join_with 0x2C (map stringify_member ms) @ 0x7D # rest)
       = Some (JObj (acc @ map member_to_js ms), rest)"
proof (induction ms arbitrary: acc)
  case Nil
  then show ?case by simp
next
  case (Cons m ms)
  have new: "obj_put (fst m) (JArr (map entry_to_js (snd m))) acc = acc @ [member_to_js m]"
    using Cons.prems(2) by (simp add: obj_put_new member_to_js_def)
  show ?case
  proof (cases ms)
    case Nil
    then show ?thesis
      using parse_members_last [OF parse_value_entries, of acc "fst m" "snd m" rest] new
      by (simp add: stringify_member_def)
  next
    case (Cons m' ms')
    have "parse_members acc (join_with 0x2C (map stringify_member (m # ms)) @ 0x7D # rest)
        = parse_members acc (stringify_string (fst m) @ 0x3A # stringify_entries (snd m)
            @ 0x2C # join_with 0x2C (map stringify_member ms) @ 0x7D # rest)"
      using Cons by (simp add: stringify_member_def)
    also have "\<dots> = parse_members (obj_put (fst m) (JArr (map entry_to_js (snd m))) acc)
            (join_with 0x2C (map stringify_member ms) @ 0x7D # rest)"
      by (rule parse_members_more) (rule parse_value_entries)
    also have "\<dots> = Some (JObj ((acc @ [member_to_js m]) @ map member_to_js ms), rest)"
      unfolding new using Cons Cons.prems(2)
      by (intro Cons.IH) (auto simp: member_to_js_def)
    finally show ?thesis by simp
  qed
qed

lemma parse_value_index:
  assumes "distinct (map fst idx)"
  shows "parse_value (stringify_index idx @ rest) = Some (index_to_js idx, rest)"
proof (cases idx)
  case Nil
  then show ?thesis
    by (simp add: stringify_index_def index_to_js_def parse_value_empty_object)
next
  case (Cons m ms)
  have "\<exists>r'. join_with 0x2C (map stringify_member idx) = 0x22 # r'"
    using Cons by (cases ms) (simp_all add: stringify_member_def stringify_string_def)
  then obtain r' where r': "join_with 0x2C (map stringify_member idx) = 0x22 # r'"
    by blast
  have "parse_value (stringify_index idx @ rest)
      = parse_members [] (join_with 0x2C (map stringify_member idx) @ 0x7D # rest)"
    unfolding stringify_index_def r'
    by (simp add: parse_value_object)
  also have "\<dots> = Some (JObj ([] @ map member_to_js idx), rest)"
    using Cons assms by (intro parse_members_index) simp_all
  finally show ?thesis
    by (simp add: index_to_js_members)
qed

subsection \<open>The parser always consumes input\<close>

lemma parse_string_body_consumes:
  "parse_string_body t = Some (x, r) \<Longrightarrow> length r < length t"
proof (induction t arbitrary: x r rule: parse_string_body.induct)
  case 1
  then show ?case by simp
next
  case (2 c t)
  show ?case
  proof (cases "c = 0x22")
    case True
    with "2.prems" show ?thesis by simp
  next
    case q: False
    show ?thesis
    proof (cases "c = 0x5C")
      case False
      with q "2.prems" "2.IH"(3) show ?thesis
        by (auto split: if_splits option.splits)
    next
      case True
      then obtain e r1 where t: "t = e # r1"
        using q "2.prems" by (cases t) auto
      show ?thesis
      proof (cases "e = 0x75")
        case False
        with q True t "2.prems" "2.IH"(2) [of e r1] show ?thesis
          by (fastforce split: option.splits)
      next
        case u: True
        then obtain h1 h2 h3 h4 r2 where r1: "r1 = h1 # h2 # h3 # h4 # r2"
          using q True t "2.prems" by (auto split: list.splits)
        with q True t u "2.prems" "2.IH"(1) [of e r1 h1 _ h2 _ h3 _ h4 r2] show ?thesis
          by (fastforce split: option.splits)
      qed
    qed
  qed
qed

lemma skip_ws_length: "length (skip_ws s) \<le> length s"
  by (simp add: skip_ws_def length_dropWhile_le)

lemma skip_ws_Cons_length: "skip_ws s = c # r \<Longrightarrow> length r < length s"
  using skip_ws_length [of s] by simp

lemma takeWhile_dropWhile_length: "length (takeWhile P s) + length (dropWhile P s) = length s"
  by (metis length_append takeWhile_dropWhile_id)

lemma parse_number_consumes:
  assumes "parse_number s = Some (n, r)"
  shows "length r < length s"
proof -
  obtain neg s1 where sg: "parse_sign s = (neg, s1)"
    by (cases "parse_sign s")
  then have l1: "length s1 \<le> length s"
    by (auto simp: parse_sign_def split: list.splits if_splits)
  from assms sg obtain ds s2 where ip: "parse_int_part s1 = Some (ds, s2)"
    by (auto simp: parse_number_def split: option.splits)
  then have l2: "length s2 < length s1"
    using takeWhile_dropWhile_length [of is_digit s1]
    by (auto simp: parse_int_part_def split: list.splits if_splits)
  from assms sg ip obtain fs s3 where fp: "parse_frac s2 = Some (fs, s3)"
    by (auto simp: parse_number_def split: option.splits)
  then have l3: "length s3 \<le> length s2"
    using takeWhile_dropWhile_length [of is_digit "tl s2"]
    by (auto simp: parse_frac_def split: list.splits if_splits)
  from assms sg ip fp obtain ex where ep: "parse_exp s3 = Some (ex, r)"
    by (auto simp: parse_number_def split: option.splits)
  then have l4: "length r \<le> length s3"
  proof (cases s3)
    case Nil
    with ep show ?thesis by (simp add: parse_exp_def)
  next
    case (Cons c t)
    obtain eneg t1 where es: "parse_exp_sign t = (eneg, t1)"
      by (cases "parse_exp_sign t")
    then have "length t1 \<le> length t"
      by (auto simp: parse_exp_sign_def split: list.splits if_splits)
    moreover have "length (dropWhile is_digit t1) \<le> length t1"
      by (rule length_dropWhile_le)
    ultimately show ?thesis
      using ep Cons es by (auto simp: parse_exp_def split: if_splits)
  qed
  from l1 l2 l3 l4 show ?thesis by linarith
qed

lemma parse_consumes:
  "\<forall>v r. parse_value s = Some (v, r) \<longrightarrow> length r < length s"
  "\<forall>v r. parse_elements acc t = Some (v, r) \<longrightarrow> length r < length t"
  "\<forall>v r. parse_members macc u = Some (v, r) \<longrightarrow> length r < length u"
proof (induction s and acc t and macc u rule: parse_value_parse_elements_parse_members.induct)
  case (1 s)
  show ?case
  proof (intro allI impI)
    fix v r
    assume p: "parse_value s = Some (v, r)"
    then obtain c r0 where sk: "skip_ws s = c # r0"
      by (subst (asm) parse_value.simps) (auto split: list.splits)
    have l0: "length r0 < length s"
      using sk by (rule skip_ws_Cons_length)
    consider (arr) "c = 0x5B" | (obj) "c \<noteq> 0x5B" "c = 0x7B" | (str) "c \<noteq> 0x5B" "c \<noteq> 0x7B" "c = 0x22"
      | (num) "c \<noteq> 0x5B" "c \<noteq> 0x7B" "c \<noteq> 0x22" "c = 0x2D \<or> is_digit c"
      | (lit) "c \<noteq> 0x5B" "c \<noteq> 0x7B" "c \<noteq> 0x22" "\<not> (c = 0x2D \<or> is_digit c)"
      by blast
    then show "length r < length s"
    proof cases
      case arr
      from p sk arr obtain d r1 where sk1: "skip_ws r0 = d # r1"
        by (subst (asm) parse_value.simps) (auto split: list.splits)
      show ?thesis
      proof (cases "d = 0x5D")
        case True
        with p sk arr sk1 have "r = r1"
          by (subst (asm) parse_value.simps) simp
        with skip_ws_Cons_length [OF sk1] l0 show ?thesis by simp
      next
        case False
        with p sk arr sk1 have "parse_elements [] r0 = Some (v, r)"
          by (subst (asm) parse_value.simps) simp
        with "1.IH"(1) [OF sk arr sk1 False] l0 show ?thesis by fastforce
      qed
    next
      case obj
      from p sk obj obtain d r1 where sk1: "skip_ws r0 = d # r1"
        by (subst (asm) parse_value.simps) (auto split: list.splits)
      show ?thesis
      proof (cases "d = 0x7D")
        case True
        with p sk obj sk1 have "r = r1"
          by (subst (asm) parse_value.simps) simp
        with skip_ws_Cons_length [OF sk1] l0 show ?thesis by simp
      next
        case False
        with p sk obj sk1 have "parse_members [] r0 = Some (v, r)"
          by (subst (asm) parse_value.simps) simp
        with "1.IH"(2) [OF sk obj(1) obj(2) sk1 False] l0 show ?thesis by fastforce
      qed
    next
      case str
      with p sk obtain x where "parse_string_body r0 = Some (x, r)"
        by (subst (asm) parse_value.simps) (auto split: option.splits)
      with parse_string_body_consumes l0 show ?thesis by fastforce
    next
      case num
      with p sk obtain n where "parse_number (c # r0) = Some (n, r)"
        by (subst (asm) parse_value.simps) (auto split: option.splits)
      then have "length r < length (c # r0)"
        by (rule parse_number_consumes)
      with l0 show ?thesis by simp
    next
      case lit
      with p sk have "r = drop 4 (c # r0) \<or> r = drop 5 (c # r0)"
        by (subst (asm) parse_value.simps) (auto split: if_splits)
      with l0 show ?thesis by auto
    qed
  qed
next
  case (2 acc t)
  show ?case
  proof (intro allI impI)
    fix v r
    assume p: "parse_elements acc t = Some (v, r)"
    then obtain x r0 where pv: "parse_value t = Some (x, r0)"
      by (subst (asm) parse_elements.simps) (auto split: option.splits)
    with "2.IH"(1) have l0: "length r0 < length t" by blast
    from p pv obtain d r1 where sk: "skip_ws r0 = d # r1"
      by (subst (asm) parse_elements.simps) (auto split: list.splits)
    have l1: "length r1 < length t"
      using skip_ws_Cons_length [OF sk] l0 by simp
    show "length r < length t"
    proof (cases "d = 0x2C")
      case True
      with p pv sk l1 have "parse_elements (acc @ [x]) r1 = Some (v, r)"
        by (subst (asm) parse_elements.simps) simp
      with "2.IH"(2) [OF pv refl sk True l1] l1 show ?thesis by fastforce
    next
      case False
      with p pv sk have "r = r1"
        by (subst (asm) parse_elements.simps) (auto split: if_splits)
      with l1 show ?thesis by simp
    qed
  qed
next
  case (3 macc u)
  show ?case
  proof (intro allI impI)
    fix v r
    assume p: "parse_members macc u = Some (v, r)"
    then obtain q r0 where sk: "skip_ws u = q # r0"
      by (subst (asm) parse_members.simps) (auto split: list.splits)
    from p sk have q: "\<not> q \<noteq> 0x22"
      by (subst (asm) parse_members.simps) (auto split: if_splits)
    from p sk q obtain k r1 where ps: "parse_string_body r0 = Some (k, r1)"
      by (subst (asm) parse_members.simps) (auto split: option.splits)
    from p sk q ps obtain colon r2 where sk1: "skip_ws r1 = colon # r2"
      by (subst (asm) parse_members.simps) (auto split: list.splits)
    from p sk q ps sk1 have c: "\<not> colon \<noteq> 0x3A"
      by (subst (asm) parse_members.simps) (auto split: if_splits)
    have l2: "length r2 < length u"
      using skip_ws_Cons_length [OF sk] parse_string_body_consumes [OF ps]
        skip_ws_Cons_length [OF sk1] by simp
    then have g: "\<not> \<not> length r2 < length u" by simp
    from p sk q ps sk1 c l2 obtain x r3 where pv: "parse_value r2 = Some (x, r3)"
      by (subst (asm) parse_members.simps) (auto split: option.splits)
    have l3: "length r3 < length r2"
      using "3.IH"(1) [OF sk q ps refl sk1 c g] pv by blast
    from p sk q ps sk1 c l2 pv obtain d r4 where sk2: "skip_ws r3 = d # r4"
      by (subst (asm) parse_members.simps) (auto split: list.splits)
    have l4: "length r4 < length u"
      using skip_ws_Cons_length [OF sk2] l3 l2 by simp
    show "length r < length u"
    proof (cases "d = 0x2C")
      case True
      with p sk q ps sk1 c l2 pv sk2 l4
      have "parse_members (obj_put k x macc) r4 = Some (v, r)"
        by (subst (asm) parse_members.simps) simp
      with "3.IH"(2) [OF sk q ps refl sk1 c g pv refl sk2 True l4] l4 show ?thesis
        by fastforce
    next
      case False
      with p sk q ps sk1 c l2 pv sk2 have "r = r4"
        by (subst (asm) parse_members.simps) (auto split: if_splits)
      with l4 show ?thesis by simp
    qed
  qed
qed

lemma parse_elements_unguarded:
  "parse_elements acc s =
     (case parse_value s of
        None \<Rightarrow> None
      | Some (v, r) \<Rightarrow>
          (case skip_ws r of
             [] \<Rightarrow> None
           | d # r1 \<Rightarrow>
               if d = 0x2C then parse_elements (acc @ [v]) r1
               else if d = 0x5D then Some (JArr (acc @ [v]), r1)
               else None))"
proof (cases "parse_value s")
  case None
  then show ?thesis
    by (subst parse_elements.simps) simp
next
  case (Some a)
  obtain v r where a: "a = (v, r)" by (cases a)
  have l: "length r < length s"
    using parse_consumes(1) [of s] Some a by blast
  show ?thesis
  proof (cases "skip_ws r")
    case Nil
    with Some a show ?thesis
      by (subst parse_elements.simps) simp
  next
    case (Cons d r1)
    with l have "length r1 < length s"
      using skip_ws_Cons_length [of r d r1] by simp
    with Some a Cons show ?thesis
      by (subst parse_elements.simps) simp
  qed
qed

lemma parse_members_unguarded:
  "parse_members acc s =
     (case skip_ws s of
        [] \<Rightarrow> None
      | q # r0 \<Rightarrow>
          if q \<noteq> 0x22 then None
          else
            (case parse_string_body r0 of
               None \<Rightarrow> None
             | Some (k, r1) \<Rightarrow>
                 (case skip_ws r1 of
                    [] \<Rightarrow> None
                  | colon # r2 \<Rightarrow>
                      if colon \<noteq> 0x3A then None
                      else
                        (case parse_value r2 of
                           None \<Rightarrow> None
                         | Some (v, r3) \<Rightarrow>
                             (case skip_ws r3 of
                                [] \<Rightarrow> None
                              | d # r4 \<Rightarrow>
                                  if d = 0x2C then parse_members (obj_put k v acc) r4
                                  else if d = 0x7D then Some (JObj (obj_put k v acc), r4)
                                  else None)))))"
proof -
  have g2: "length r2 < length s"
    if "skip_ws s = q # r0" "parse_string_body r0 = Some (k, r1)" "skip_ws r1 = colon # r2"
    for q r0 k r1 colon r2
    using skip_ws_Cons_length [OF that(1)] parse_string_body_consumes [OF that(2)]
      skip_ws_Cons_length [OF that(3)] by simp
  have g4: "length r4 < length s"
    if "skip_ws s = q # r0" "parse_string_body r0 = Some (k, r1)" "skip_ws r1 = colon # r2"
      "parse_value r2 = Some (v, r3)" "skip_ws r3 = d # r4"
    for q r0 k r1 colon r2 v r3 d r4
    using g2 [OF that(1,2,3)] parse_consumes(1) [of r2] that(4) skip_ws_Cons_length [OF that(5)]
    by fastforce
  show ?thesis
    by (subst parse_members.simps)
      (auto split: list.splits option.splits simp: g2 g4 simp del: parse_string_body.simps)
qed

subsection \<open>The payload\<close>

lemma parse_value_object_key:
  "parse_value (0x7B # stringify_string k @ r) = parse_members [] (stringify_string k @ r)"
  by (simp add: stringify_string_def parse_value_object)

lemma payload_keys:
  "obj_put (str ''edge'') d
     (obj_put (str ''corner'') c (obj_put (str ''timeText'') b (obj_put (str ''time'') a [])))
   = [(str ''time'', a), (str ''timeText'', b), (str ''corner'', c), (str ''edge'', d)]"
  by (simp add: obj_put_def str_def)

lemma parse_value_payload:
  assumes "distinct (map fst corner)" and "distinct (map fst edge)"
  shows "parse_value (stringify_payload t tt corner edge @ rest)
           = Some (payload_js t tt corner edge, rest)"
proof -
  have "parse_value (stringify_payload t tt corner edge @ rest)
      = parse_members []
          (stringify_string (str ''time'') @ 0x3A # show_nat t
           @ 0x2C # stringify_string (str ''timeText'') @ 0x3A # stringify_string tt
           @ 0x2C # stringify_string (str ''corner'') @ 0x3A # stringify_index corner
           @ 0x2C # stringify_string (str ''edge'') @ 0x3A # stringify_index edge
           @ 0x7D # rest)"
    by (simp add: stringify_payload_def parse_value_object_key)
  also have "\<dots> = parse_members (obj_put (str ''time'') (JNum (of_nat t)) [])
          (stringify_string (str ''timeText'') @ 0x3A # stringify_string tt
           @ 0x2C # stringify_string (str ''corner'') @ 0x3A # stringify_index corner
           @ 0x2C # stringify_string (str ''edge'') @ 0x3A # stringify_index edge
           @ 0x7D # rest)"
    by (rule parse_members_more) (rule parse_value_show_nat)
  also have "\<dots> = parse_members
          (obj_put (str ''timeText'') (JStr tt) (obj_put (str ''time'') (JNum (of_nat t)) []))
          (stringify_string (str ''corner'') @ 0x3A # stringify_index corner
           @ 0x2C # stringify_string (str ''edge'') @ 0x3A # stringify_index edge
           @ 0x7D # rest)"
    by (rule parse_members_more) (rule parse_value_string)
  also have "\<dots> = parse_members
          (obj_put (str ''corner'') (index_to_js corner)
            (obj_put (str ''timeText'') (JStr tt) (obj_put (str ''time'') (JNum (of_nat t)) [])))
          (stringify_string (str ''edge'') @ 0x3A # stringify_index edge @ 0x7D # rest)"
    by (rule parse_members_more) (rule parse_value_index [OF assms(1)])
  also have "\<dots> = Some (JObj (obj_put (str ''edge'') (index_to_js edge)
          (obj_put (str ''corner'') (index_to_js corner)
            (obj_put (str ''timeText'') (JStr tt) (obj_put (str ''time'') (JNum (of_nat t)) [])))),
          rest)"
    by (rule parse_members_last) (rule parse_value_index [OF assms(2)])
  finally show ?thesis
    by (simp only: payload_keys payload_js_def)
qed

lemma loadCache_raw_payload:
  assumes "distinct (map fst corner)" and "distinct (map fst edge)"
  shows "loadCache_raw (Some (stringify_payload t tt corner edge)) = payload_js t tt corner edge"
proof -
  have "JSON_parse (stringify_payload t tt corner edge) = Some (payload_js t tt corner edge)"
    using parse_value_payload [OF assms, of t tt "[]"]
    by (simp add: JSON_parse_def skip_ws_def)
  moreover have "stringify_payload t tt corner edge \<noteq> []"
    by (simp add: stringify_payload_def)
  ultimately show ?thesis
    by (simp add: loadCache_raw_def)
qed

lemma payload_fields:
  "get_field (payload_js t tt corner edge) (str ''corner'') = Some (index_to_js corner)"
  "get_field (payload_js t tt corner edge) (str ''edge'') = Some (index_to_js edge)"
  "get_field (payload_js t tt corner edge) (str ''timeText'') = Some (JStr tt)"
  "get_field (payload_js t tt corner edge) (str ''time'') = Some (JNum (of_nat t))"
  "truthy (payload_js t tt corner edge)"
  by (simp_all add: payload_js_def str_def)

text \<open>
  C8. Let \<open>A\<close> and \<open>B\<close> be indices (each key is one property of the object). When
  \<open>saveCache\<close> has written them (\<open>setItem\<close> did not throw), \<open>loadCache\<close> returns the
  snapshot that was written: an object with the time, the time text, and under \<open>corner\<close>
  and \<open>edge\<close> values equal to \<open>A\<close> and \<open>B\<close>, key by key and entry by entry.
\<close>

theorem save_then_load:
  assumes "saveCache e A B st = Some st'" and "distinct (map fst A)" and "distinct (map fst B)"
  shows "loadCache st' = payload_js (now e) (nowText e) A B
       \<and> get_field (loadCache st') (str ''corner'') = Some (index_to_js A)
       \<and> get_field (loadCache st') (str ''edge'') = Some (index_to_js B)"
proof -
  from assms(1) have "storage st' = Some (stringify_payload (now e) (nowText e) A B)"
    by (auto simp: saveCache_def split: if_splits)
  then have "loadCache st' = payload_js (now e) (nowText e) A B"
    by (simp add: loadCache_def loadCache_raw_payload [OF assms(2,3)])
  then show ?thesis
    by (simp add: payload_fields)
qed

theorem save_then_load_witness:
  "saveCache offline_env two_entries [] (initial_state None)
     = Some ((initial_state None)\<lparr>storage := Some (stringify_payload 5 (str ''later'') two_entries [])\<rparr>)
   \<and> distinct (map fst two_entries) \<and> distinct (map fst ([] :: index))
   \<and> loadCache ((initial_state None)\<lparr>storage := Some (stringify_payload 5 (str ''later'') two_entries [])\<rparr>)
       = payload_js 5 (str ''later'') two_entries []
   \<and> get_field
        (loadCache ((initial_state None)\<lparr>storage := Some (stringify_payload 5 (str ''later'') two_entries [])\<rparr>))
        (str ''corner'') = Some (index_to_js two_entries)
   \<and> get_field
        (loadCache ((initial_state None)\<lparr>storage := Some (stringify_payload 5 (str ''later'') two_entries [])\<rparr>))
        (str ''edge'') = Some (index_to_js [])"
proof -
  have s: "saveCache offline_env two_entries [] (initial_state None)
     = Some ((initial_state None)\<lparr>storage := Some (stringify_payload 5 (str ''later'') two_entries [])\<rparr>)"
    by (simp add: saveCache_def offline_env_def)
  have d: "distinct (map fst two_entries)" "distinct (map fst ([] :: index))"
    by (simp_all add: two_entries_def str_def)
  have n: "now offline_env = 5" "nowText offline_env = str ''later''"
    by (simp_all add: offline_env_def)
  from save_then_load [OF s d] s d show ?thesis
    unfolding n by blast
qed

lemma keys_distinct_line:
  "distinct (map fst out) \<Longrightarrow> distinct (map fst (parseTSV_line up out line))"
  using parseTSV_line_cases [of up out line]
  by (auto simp: keys_push keys_ensure)

lemma keys_distinct_loop:
  "distinct (map fst out) \<Longrightarrow> distinct (map fst (parseTSV_loop up out ls))"
  by (induction ls arbitrary: out) (simp_all add: keys_distinct_line)

lemma keys_distinct_parseTSV: "distinct (map fst (parseTSV up t))"
  by (simp add: parseTSV_def keys_distinct_loop)

lemma fetchData_success:
  assumes "cornerFetch e = Fulfilled (Response True (Some cornerText))"
    and "edgeFetch e = Fulfilled (Response True (Some edgeText))"
    and "\<not> setItemThrows e"
  shows "fetchData up e st =
     st\<lparr>dataCorner := index_to_js (parseTSV up cornerText),
        dataEdge := index_to_js (parseTSV up edgeText),
        storage := Some (stringify_payload (now e) (nowText e)
                           (parseTSV up cornerText) (parseTSV up edgeText)),
        refreshDisabled := False,
        status := (Updated, Some (JStr (nowText e))),
        fetches := fetches st + 2\<rparr>"
  using assms
  by (simp add: fetchData_def fetch_try_def saveCache_def Let_def loadCache_def
      loadCache_raw_payload [OF keys_distinct_parseTSV keys_distinct_parseTSV] payload_fields)


section \<open>Start-up\<close>

text \<open>
  C7. When \<open>loadCache\<close> returns a truthy value at start-up, \<open>init\<close> adopts its fields
  \<open>corner\<close> and \<open>edge\<close> and makes no \<open>fetch\<close> call; it sets the status "Loaded from
  cache" with the \<open>timeText\<close>, unless converting that to a string throws, and then the
  status stays as it was. For a snapshot written by \<open>saveCache\<close> this gives back the two
  indices, whatever its time \<open>t\<close> and whatever the clock \<open>now e\<close> of the start-up are: the
  result mentions neither, and \<open>CACHE_TIME\<close> occurs in no function of the program.
\<close>

theorem init_adopts_cache:
  "(truthy (loadCache st) \<longrightarrow>
      dataCorner (init up e st) = field_or_undefined (loadCache st) (str ''corner'')
      \<and> dataEdge (init up e st) = field_or_undefined (loadCache st) (str ''edge'')
      \<and> fetches (init up e st) = fetches st
      \<and> status (init up e st) =
          (if converts_to_string (field_or_undefined (loadCache st) (str ''timeText''))
           then (LoadedFromCache, Some (field_or_undefined (loadCache st) (str ''timeText'')))
           else status st))
   \<and> (storage st = Some (stringify_payload t tt A B) \<and> distinct (map fst A) \<and> distinct (map fst B) \<longrightarrow>
      init up e st =
        st\<lparr>dataCorner := index_to_js A, dataEdge := index_to_js B,
           status := (LoadedFromCache, Some (JStr tt))\<rparr>
      \<and> fetches (init up e st) = fetches st)"
proof (intro conjI impI)
  assume "truthy (loadCache st)"
  then show "dataCorner (init up e st) = field_or_undefined (loadCache st) (str ''corner'')"
    and "dataEdge (init up e st) = field_or_undefined (loadCache st) (str ''edge'')"
    and "fetches (init up e st) = fetches st"
    and "status (init up e st) =
          (if converts_to_string (field_or_undefined (loadCache st) (str ''timeText''))
           then (LoadedFromCache, Some (field_or_undefined (loadCache st) (str ''timeText'')))
           else status st)"
    by (simp_all add: init_def Let_def)
next
  assume a: "storage st = Some (stringify_payload t tt A B) \<and> distinct (map fst A) \<and> distinct (map fst B)"
  then have l: "loadCache st = payload_js t tt A B"
    by (simp add: loadCache_def loadCache_raw_payload)
  then show "init up e st =
        st\<lparr>dataCorner := index_to_js A, dataEdge := index_to_js B,
           status := (LoadedFromCache, Some (JStr tt))\<rparr>"
    and "fetches (init up e st) = fetches st"
    by (simp_all add: init_def Let_def payload_fields field_or_undefined_def)
qed

theorem init_adopts_cache_witness:
  "storage (initial_state (Some (stringify_payload 0 (str ''old'') two_entries [])))
     = Some (stringify_payload 0 (str ''old'') two_entries [])
   \<and> distinct (map fst two_entries) \<and> distinct (map fst ([] :: index))
   \<and> CACHE_TIME < now late_env - 0
   \<and> truthy (loadCache (initial_state (Some (stringify_payload 0 (str ''old'') two_entries []))))
   \<and> init ascii_upper late_env (initial_state (Some (stringify_payload 0 (str ''old'') two_entries [])))
       = (initial_state (Some (stringify_payload 0 (str ''old'') two_entries [])))
           \<lparr>dataCorner := index_to_js two_entries, dataEdge := index_to_js [],
            status := (LoadedFromCache, Some (JStr (str ''old'')))\<rparr>
   \<and> fetches (init ascii_upper late_env
        (initial_state (Some (stringify_payload 0 (str ''old'') two_entries [])))) = 0
   \<and> truthy (loadCache (initial_state (Some slot_time_text_object)))
   \<and> dataCorner (init ascii_upper late_env (initial_state (Some slot_time_text_object))) = JObj []
   \<and> dataEdge (init ascii_upper late_env (initial_state (Some slot_time_text_object))) = JArr []
   \<and> fetches (init ascii_upper late_env (initial_state (Some slot_time_text_object))) = 0
   \<and> status (init ascii_upper late_env (initial_state (Some slot_time_text_object)))
       = status (initial_state (Some slot_time_text_object))"
proof -
  have s: "storage (initial_state (Some (stringify_payload 0 (str ''old'') two_entries [])))
     = Some (stringify_payload 0 (str ''old'') two_entries [])"
    and f: "fetches (initial_state (Some (stringify_payload 0 (str ''old'') two_entries []))) = 0"
      "fetches (initial_state (Some slot_time_text_object)) = 0"
    by (simp_all add: initial_state_def)
  have d: "distinct (map fst two_entries)" "distinct (map fst ([] :: index))"
    by (simp_all add: two_entries_def str_def)
  have age: "CACHE_TIME < now late_env - 0"
    by (simp add: late_env_def CACHE_TIME_def)
  have l: "loadCache (initial_state (Some (stringify_payload 0 (str ''old'') two_entries [])))
      = payload_js 0 (str ''old'') two_entries []"
    by (simp add: loadCache_def s loadCache_raw_payload [OF d])
  have t: "truthy (loadCache (initial_state (Some (stringify_payload 0 (str ''old'') two_entries []))))"
    unfolding l by (rule payload_fields(5))
  have r: "init ascii_upper late_env (initial_state (Some (stringify_payload 0 (str ''old'') two_entries [])))
       = (initial_state (Some (stringify_payload 0 (str ''old'') two_entries [])))
           \<lparr>dataCorner := index_to_js two_entries, dataEdge := index_to_js [],
            status := (LoadedFromCache, Some (JStr (str ''old'')))\<rparr>"
    using init_adopts_cache [of "initial_state (Some (stringify_payload 0 (str ''old'') two_entries []))"
      ascii_upper late_env 0 "str ''old''" two_entries "[]"] s d
    by blast
  have f0: "fetches (init ascii_upper late_env
        (initial_state (Some (stringify_payload 0 (str ''old'') two_entries [])))) = 0"
    unfolding r by (simp add: f)
  have b: "loadCache (initial_state (Some slot_time_text_object))
      = JObj [(str ''corner'', JObj []), (str ''edge'', JArr []),
              (str ''timeText'', JObj [(str ''toString'', JNum 1)])]"
    by code_simp
  have bt: "truthy (loadCache (initial_state (Some slot_time_text_object)))"
    unfolding b by simp
  have bf: "field_or_undefined (loadCache (initial_state (Some slot_time_text_object))) (str ''corner'') = JObj []"
    "field_or_undefined (loadCache (initial_state (Some slot_time_text_object))) (str ''edge'') = JArr []"
    "\<not> converts_to_string
        (field_or_undefined (loadCache (initial_state (Some slot_time_text_object))) (str ''timeText''))"
    unfolding b by code_simp+
  have x: "dataCorner (init ascii_upper late_env (initial_state (Some slot_time_text_object))) = JObj []"
    "dataEdge (init ascii_upper late_env (initial_state (Some slot_time_text_object))) = JArr []"
    "fetches (init ascii_upper late_env (initial_state (Some slot_time_text_object))) = 0"
    "status (init ascii_upper late_env (initial_state (Some slot_time_text_object)))
       = status (initial_state (Some slot_time_text_object))"
    using init_adopts_cache [of "initial_state (Some slot_time_text_object)" ascii_upper late_env
      0 "str ''old''" two_entries "[]"] bt bf f(2)
    by simp_all
  show ?thesis
    by (intro conjI) (fact s d age t r f0 bt x)+
qed

section \<open>The parser on a heap: a second parse\<close>

subsection \<open>Reading an Index from its layout\<close>

lemma those_map_Some: "(\<forall>x \<in> set xs. f x = Some (g x)) \<Longrightarrow> those (map f xs) = Some (map g xs)"
  by (induction xs) simp_all

lemma repI:
  assumes "n \<le> out" and "out < length H"
    and "H ! out = Object (map (\<lambda>s. (skey s, Ref (sarr s))) L)"
    and "distinct (map skey L)" and "distinct (map sarr L)"
    and "\<And>s. s \<in> set L \<Longrightarrow>
          n \<le> sarr s \<and> sarr s < length H \<and> sarr s \<noteq> out \<and>
          H ! sarr s = Array (map (\<lambda>pe. Ref (fst pe)) (spairs s))"
    and "\<And>s pe. s \<in> set L \<Longrightarrow> pe \<in> set (spairs s) \<Longrightarrow>
          n \<le> fst pe \<and> fst pe < length H \<and> fst pe \<noteq> out \<and> fst pe \<notin> sarr ` set L \<and>
          H ! fst pe = Array [Str (fst (snd pe)), Str (snd (snd pe))]"
  shows "rep n out H L"
  unfolding rep_def using assms by blast

lemma rep_slot:
  assumes "rep n out H L" and "s \<in> set L"
  shows "n \<le> sarr s" and "sarr s < length H" and "sarr s \<noteq> out"
    and "H ! sarr s = Array (map (\<lambda>pe. Ref (fst pe)) (spairs s))"
  using assms unfolding rep_def by blast+

lemma rep_pair:
  assumes "rep n out H L" and "s \<in> set L" and "pe \<in> set (spairs s)"
  shows "n \<le> fst pe" and "fst pe < length H" and "fst pe \<noteq> out"
    and "fst pe \<notin> sarr ` set L"
    and "H ! fst pe = Array [Str (fst (snd pe)), Str (snd (snd pe))]"
  using assms unfolding rep_def by blast+

lemma rep_read_pair:
  assumes "rep n out H L" and "s \<in> set L" and "pe \<in> set (spairs s)"
  shows "read_pair H (Ref (fst pe)) = Some (snd pe)"
  using rep_pair(2,5) [OF assms] by (simp add: read_pair_def)

lemma rep_read_entries:
  assumes "rep n out H L" and "s \<in> set L"
  shows "read_entries H (Ref (sarr s)) = Some (map snd (spairs s))"
proof -
  have "those (map (read_pair H) (map (\<lambda>pe. Ref (fst pe)) (spairs s))) = Some (map snd (spairs s))"
    using rep_read_pair [OF assms] by (simp add: those_map_Some comp_def)
  with rep_slot(2,4) [OF assms] show ?thesis
    by (simp add: read_entries_def)
qed

lemma rep_read:
  assumes "rep n out H L"
  shows "read_index H out = Some (layout_index L)"
proof -
  have "those (map (\<lambda>(k, v). map_option (\<lambda>es. (k, es)) (read_entries H v))
                 (map (\<lambda>s. (skey s, Ref (sarr s))) L)) = Some (layout_index L)"
    unfolding layout_index_def using rep_read_entries [OF assms]
    by (simp add: those_map_Some comp_def)
  with assms show ?thesis
    by (simp add: rep_def read_index_def)
qed

lemma rep_extend:
  assumes "rep n out H L" and "length H \<le> length H'" and "\<forall>i < length H. H' ! i = H ! i"
  shows "rep n out H' L"
  using assms unfolding rep_def
  by fastforce

lemma rep_initial: "rep (length h) (length h) (h @ [Object []]) []"
  by (simp add: rep_def)

lemma rep_skey_inj:
  assumes "rep n out H L" and "s \<in> set L" and "t \<in> set L" and "skey t = skey s"
  shows "t = s"
proof -
  have "inj_on skey (set L)"
    using assms(1) by (simp add: rep_def distinct_map)
  with assms(2-4) show ?thesis
    by (simp add: inj_on_def)
qed

lemma rep_sarr_inj:
  assumes "rep n out H L" and "s \<in> set L" and "t \<in> set L" and "sarr t = sarr s"
  shows "t = s"
proof -
  have "inj_on sarr (set L)"
    using assms(1) by (simp add: rep_def distinct_map)
  with assms(2-4) show ?thesis
    by (simp add: inj_on_def)
qed

subsection \<open>Cells that stay as they are\<close>

lemma frame_refl: "frame n H H"
  by (simp add: frame_def)

lemma frame_trans: "frame n H H' \<Longrightarrow> frame n H' H'' \<Longrightarrow> frame n H H''"
  by (auto simp: frame_def)

lemma frame_take:
  assumes "frame (length h) h h'"
  shows "take (length h) h' = h"
  using assms by (auto simp: frame_def list_eq_iff_nth_eq)

subsection \<open>Storing under a key that is new\<close>

lemma map_of_layout_new:
  assumes "key \<notin> skey ` set L"
  shows "map_of (map (\<lambda>s. (skey s, Ref (sarr s))) L) key = None"
proof -
  have "key \<notin> fst ` set (map (\<lambda>s. (skey s, Ref (sarr s))) L)"
    using assms by force
  then show ?thesis
    by (simp add: map_of_eq_None_iff)
qed

lemma heap_get_rep_new:
  assumes "rep n out H L" and "key \<notin> skey ` set L" and "object_prototype_member key = None"
  shows "heap_get H out key = Some Undefined"
  using assms(1,3) map_of_layout_new [OF assms(2)]
  by (simp add: rep_def heap_get_def)

lemma store_new:
  assumes "rep n out H L" and "key \<notin> skey ` set L" and "object_prototype_member key = None"
  shows "heap_store out key e H =
     Some (H[out := Object (map (\<lambda>s. (skey s, Ref (sarr s))) L @ [(key, Ref (length H))])]
       @ [Array [Ref (Suc (length H))], Array [Str (fst e), Str (snd e)]])"
proof -
  have o: "out < length H" and c: "H ! out = Object (map (\<lambda>s. (skey s, Ref (sarr s))) L)"
    using assms(1) by (simp_all add: rep_def)
  have k: "key \<notin> set (map fst (map (\<lambda>s. (skey s, Ref (sarr s))) L))"
    using assms(2) by force
  have e1: "heap_ensure_key out key H =
      Some (H[out := Object (map (\<lambda>s. (skey s, Ref (sarr s))) L @ [(key, Ref (length H))])] @ [Array []])"
    using o c k heap_get_rep_new [OF assms]
    by (simp add: heap_ensure_key_def alloc_def heap_set_def nth_append list_update_append1)
  have g: "heap_get (H[out := Object (map (\<lambda>s. (skey s, Ref (sarr s))) L @ [(key, Ref (length H))])] @ [Array []])
      out key = Some (Ref (length H))"
    using o map_of_layout_new [OF assms(2)]
    by (simp add: heap_get_def nth_append map_add_def)
  show ?thesis
    unfolding heap_store_def e1 option.case heap_push_entry_def g
    using o by (simp add: alloc_def heap_push_def nth_append list_update_append)
qed

lemma rep_store_new:
  assumes r: "rep n out H L" and k: "key \<notin> skey ` set L"
  shows "rep n out
           (H[out := Object (map (\<lambda>s. (skey s, Ref (sarr s))) L @ [(key, Ref (length H))])]
              @ [Array [Ref (Suc (length H))], Array [Str (fst e), Str (snd e)]])
           (L @ [Slot key (length H) [(Suc (length H), e)]])"
proof -
  let ?H' = "H[out := Object (map (\<lambda>s. (skey s, Ref (sarr s))) L @ [(key, Ref (length H))])]
       @ [Array [Ref (Suc (length H))], Array [Str (fst e), Str (snd e)]]"
  let ?L' = "L @ [Slot key (length H) [(Suc (length H), e)]]"
  have o: "n \<le> out" "out < length H"
    using r by (simp_all add: rep_def)
  have keep: "?H' ! i = H ! i" if "i < length H" "i \<noteq> out" for i
    using that by (simp add: nth_append)
  have at_out: "?H' ! out = Object (map (\<lambda>s. (skey s, Ref (sarr s))) L @ [(key, Ref (length H))])"
    using o by (simp add: nth_append)
  have at_a: "?H' ! length H = Array [Ref (Suc (length H))]"
    by (simp add: nth_append)
  have at_p: "?H' ! Suc (length H) = Array [Str (fst e), Str (snd e)]"
    by (simp add: nth_append)
  have fresh: "length H \<notin> sarr ` set L" "Suc (length H) \<notin> sarr ` set L"
    using rep_slot(2) [OF r] by fastforce+
  show ?thesis
  proof (rule repI)
    show "n \<le> out" by (rule o)
    show "out < length ?H'" using o by simp
    show "?H' ! out = Object (map (\<lambda>s. (skey s, Ref (sarr s))) ?L')"
      using at_out by simp
    show "distinct (map skey ?L')"
      using r k by (simp add: rep_def)
    show "distinct (map sarr ?L')"
      using r fresh by (simp add: rep_def)
  next
    fix s assume "s \<in> set ?L'"
    then consider (old) "s \<in> set L" | (new) "s = Slot key (length H) [(Suc (length H), e)]"
      by auto
    then show "n \<le> sarr s \<and> sarr s < length ?H' \<and> sarr s \<noteq> out \<and>
          ?H' ! sarr s = Array (map (\<lambda>pe. Ref (fst pe)) (spairs s))"
    proof cases
      case old
      with rep_slot [OF r old] keep [of "sarr s"] show ?thesis
        by simp
    next
      case new
      with o at_a show ?thesis
        by simp
    qed
  next
    fix s pe
    assume s: "s \<in> set ?L'" and pe: "pe \<in> set (spairs s)"
    from s consider (old) "s \<in> set L" | (new) "s = Slot key (length H) [(Suc (length H), e)]"
      by auto
    then show "n \<le> fst pe \<and> fst pe < length ?H' \<and> fst pe \<noteq> out \<and>
          fst pe \<notin> sarr ` set ?L' \<and>
          ?H' ! fst pe = Array [Str (fst (snd pe)), Str (snd (snd pe))]"
    proof cases
      case old
      with rep_pair [OF r old pe] keep [of "fst pe"] show ?thesis
        by auto
    next
      case new
      with pe have "pe = (Suc (length H), e)" by simp
      with o at_p fresh show ?thesis
        by auto
    qed
  qed
qed

lemma push_entry_other:
  assumes "key \<notin> fst ` set out"
  shows "push_entry key e out = out"
  using assms by (induction out) (auto simp: push_entry_def)

lemma layout_store_new:
  assumes "key \<notin> skey ` set L"
  shows "push_entry key e (ensure_key key (layout_index L)) =
           layout_index (L @ [Slot key a [(p, e)]])"
proof -
  have k: "key \<notin> fst ` set (layout_index L)"
    using assms by (force simp: layout_index_def)
  then have "get_entries (layout_index L) key = None"
    by (simp add: get_entries_def map_of_eq_None_iff)
  then have "ensure_key key (layout_index L) = layout_index L @ [(key, [])]"
    by (simp add: ensure_key_def)
  moreover have "push_entry key e (layout_index L @ [(key, [])]) =
      push_entry key e (layout_index L) @ [(key, [e])]"
    by (simp add: push_entry_def)
  ultimately show ?thesis
    using push_entry_other [OF k] by (simp add: layout_index_def)
qed

subsection \<open>Storing under a key that is present\<close>

lemma heap_get_rep_old:
  assumes "rep n out H L" and "s \<in> set L"
  shows "heap_get H out (skey s) = Some (Ref (sarr s))"
proof -
  have "distinct (map fst (map (\<lambda>s. (skey s, Ref (sarr s))) L))"
    using assms(1) by (simp add: rep_def comp_def)
  moreover have "(skey s, Ref (sarr s)) \<in> set (map (\<lambda>s. (skey s, Ref (sarr s))) L)"
    using assms(2) by force
  ultimately have "map_of (map (\<lambda>s. (skey s, Ref (sarr s))) L) (skey s) = Some (Ref (sarr s))"
    by (rule map_of_is_SomeI)
  with assms(1) show ?thesis
    by (simp add: rep_def heap_get_def)
qed

lemma store_old:
  assumes "rep n out H L" and "s \<in> set L"
  shows "heap_store out (skey s) e H =
     Some (H[sarr s := Array (map (\<lambda>pe. Ref (fst pe)) (spairs s) @ [Ref (length H)])]
       @ [Array [Str (fst e), Str (snd e)]])"
proof -
  have a: "sarr s < length H" and c: "H ! sarr s = Array (map (\<lambda>pe. Ref (fst pe)) (spairs s))"
    using rep_slot(2,4) [OF assms] by simp_all
  have e1: "heap_ensure_key out (skey s) H = Some H"
    by (simp add: heap_ensure_key_def heap_get_rep_old [OF assms])
  show ?thesis
    unfolding heap_store_def e1 option.case heap_push_entry_def heap_get_rep_old [OF assms]
    using a c by (simp add: alloc_def heap_push_def nth_append list_update_append1)
qed

lemma skey_slot_push: "map skey (slot_push key p e L) = map skey L"
  by (induction L) (simp_all add: slot_push_def)

lemma sarr_slot_push: "map sarr (slot_push key p e L) = map sarr L"
  by (induction L) (simp_all add: slot_push_def)

lemma sarr_image_slot_push: "sarr ` set (slot_push key p e L) = sarr ` set L"
  using sarr_slot_push [of key p e L] by (metis list.set_map)

lemma object_slot_push:
  "map (\<lambda>s. (skey s, Ref (sarr s))) (slot_push key p e L) = map (\<lambda>s. (skey s, Ref (sarr s))) L"
  by (induction L) (simp_all add: slot_push_def)

lemma in_slot_push:
  assumes "t' \<in> set (slot_push key p e L)"
  obtains (same) "t' \<in> set L" and "skey t' \<noteq> key"
  | (pushed) t where "t \<in> set L" and "skey t = key"
      and "t' = Slot (skey t) (sarr t) (spairs t @ [(p, e)])"
  using assms by (auto simp: slot_push_def split: if_splits)

lemma rep_store_old:
  assumes r: "rep n out H L" and s: "s \<in> set L"
  shows "rep n out
           (H[sarr s := Array (map (\<lambda>pe. Ref (fst pe)) (spairs s) @ [Ref (length H)])]
              @ [Array [Str (fst e), Str (snd e)]])
           (slot_push (skey s) (length H) e L)"
proof -
  let ?H' = "H[sarr s := Array (map (\<lambda>pe. Ref (fst pe)) (spairs s) @ [Ref (length H)])]
       @ [Array [Str (fst e), Str (snd e)]]"
  let ?L' = "slot_push (skey s) (length H) e L"
  have o: "n \<le> out" "out < length H"
    using r by (simp_all add: rep_def)
  have keep: "?H' ! i = H ! i" if "i < length H" "i \<noteq> sarr s" for i
    using that by (simp add: nth_append)
  have at_a: "?H' ! sarr s = Array (map (\<lambda>pe. Ref (fst pe)) (spairs s) @ [Ref (length H)])"
    using rep_slot(2) [OF r s] by (simp add: nth_append)
  have at_p: "?H' ! length H = Array [Str (fst e), Str (snd e)]"
    by (simp add: nth_append)
  have fresh: "length H \<notin> sarr ` set L"
    using rep_slot(2) [OF r] by fastforce
  show ?thesis
  proof (rule repI)
    show "n \<le> out" by (rule o)
    show "out < length ?H'" using o by simp
    show "?H' ! out = Object (map (\<lambda>s. (skey s, Ref (sarr s))) ?L')"
      using keep [of out] o rep_slot(3) [OF r s] r by (simp add: object_slot_push rep_def)
    show "distinct (map skey ?L')"
      using r by (simp add: skey_slot_push rep_def)
    show "distinct (map sarr ?L')"
      using r by (simp add: sarr_slot_push rep_def)
  next
    fix t' assume "t' \<in> set ?L'"
    then show "n \<le> sarr t' \<and> sarr t' < length ?H' \<and> sarr t' \<noteq> out \<and>
          ?H' ! sarr t' = Array (map (\<lambda>pe. Ref (fst pe)) (spairs t'))"
    proof (cases rule: in_slot_push)
      case same
      then have "sarr t' \<noteq> sarr s"
        using rep_sarr_inj [OF r s, of t'] by auto
      with rep_slot [OF r same(1)] keep [of "sarr t'"] show ?thesis
        by simp
    next
      case (pushed t)
      then have "t = s"
        using rep_skey_inj [OF r s] by simp
      with pushed rep_slot [OF r s] at_a show ?thesis
        by simp
    qed
  next
    fix t' pe
    assume t': "t' \<in> set ?L'" and pe: "pe \<in> set (spairs t')"
    have old: "n \<le> fst pe \<and> fst pe < length ?H' \<and> fst pe \<noteq> out \<and>
          fst pe \<notin> sarr ` set ?L' \<and>
          ?H' ! fst pe = Array [Str (fst (snd pe)), Str (snd (snd pe))]"
      if t: "t \<in> set L" and m: "pe \<in> set (spairs t)" for t
    proof -
      have "fst pe \<noteq> sarr s"
        using rep_pair(4) [OF r t m] s by auto
      with rep_pair [OF r t m] keep [of "fst pe"] show ?thesis
        by (simp add: sarr_image_slot_push)
    qed
    from t' show "n \<le> fst pe \<and> fst pe < length ?H' \<and> fst pe \<noteq> out \<and>
          fst pe \<notin> sarr ` set ?L' \<and>
          ?H' ! fst pe = Array [Str (fst (snd pe)), Str (snd (snd pe))]"
    proof (cases rule: in_slot_push)
      case same
      with pe show ?thesis
        by (rule_tac old)
    next
      case (pushed t)
      with pe consider "pe \<in> set (spairs t)" | "pe = (length H, e)"
        by auto
      then show ?thesis
      proof cases
        case 1
        with pushed show ?thesis
          by (rule_tac old)
      next
        case 2
        with o at_p fresh show ?thesis
          by (simp add: sarr_image_slot_push)
      qed
    qed
  qed
qed

lemma layout_store_old:
  assumes "s \<in> set L"
  shows "push_entry (skey s) e (ensure_key (skey s) (layout_index L)) =
           layout_index (slot_push (skey s) p e L)"
proof -
  have "skey s \<in> fst ` set (layout_index L)"
    using assms by (force simp: layout_index_def)
  then have "get_entries (layout_index L) (skey s) \<noteq> None"
    by (simp add: get_entries_def map_of_eq_None_iff)
  then have "ensure_key (skey s) (layout_index L) = layout_index L"
    by (auto simp: ensure_key_def)
  moreover have "push_entry key e (layout_index L) = layout_index (slot_push key p e L)" for key
    by (induction L) (simp_all add: push_entry_def layout_index_def slot_push_def)
  ultimately show ?thesis
    by simp
qed

subsection \<open>One line, all lines\<close>

lemma rep_store:
  assumes r: "rep n out H L" and k: "length key = 2"
  shows "\<exists>H' L'. heap_store out key e H = Some H' \<and> rep n out H' L'
           \<and> layout_index L' = push_entry key e (ensure_key key (layout_index L))
           \<and> frame n H H'"
proof (cases "key \<in> skey ` set L")
  case True
  then obtain s where s: "s \<in> set L" and ks: "key = skey s"
    by auto
  let ?H' = "H[sarr s := Array (map (\<lambda>pe. Ref (fst pe)) (spairs s) @ [Ref (length H)])]
       @ [Array [Str (fst e), Str (snd e)]]"
  have "n \<le> sarr s" "sarr s < length H"
    using rep_slot [OF r s] by simp_all
  then have f: "frame n H ?H'"
    by (simp add: frame_def nth_append)
  show ?thesis
    unfolding ks
  proof (intro exI conjI)
    show "heap_store out (skey s) e H = Some ?H'"
      by (rule store_old [OF r s])
    show "rep n out ?H' (slot_push (skey s) (length H) e L)"
      by (rule rep_store_old [OF r s])
    show "layout_index (slot_push (skey s) (length H) e L) =
        push_entry (skey s) e (ensure_key (skey s) (layout_index L))"
      by (rule layout_store_old [OF s, symmetric])
    show "frame n H ?H'"
      by (rule f)
  qed
next
  case False
  let ?H' = "H[out := Object (map (\<lambda>s. (skey s, Ref (sarr s))) L @ [(key, Ref (length H))])]
       @ [Array [Ref (Suc (length H))], Array [Str (fst e), Str (snd e)]]"
  have "n \<le> out" "out < length H"
    using r by (simp_all add: rep_def)
  then have f: "frame n H ?H'"
    by (simp add: frame_def nth_append)
  show ?thesis
  proof (intro exI conjI)
    show "heap_store out key e H = Some ?H'"
      by (rule store_new [OF r False two_units_not_inherited [OF k]])
    show "rep n out ?H' (L @ [Slot key (length H) [(Suc (length H), e)]])"
      by (rule rep_store_new [OF r False])
    show "layout_index (L @ [Slot key (length H) [(Suc (length H), e)]]) =
        push_entry key e (ensure_key key (layout_index L))"
      by (rule layout_store_new [OF False, symmetric])
    show "frame n H ?H'"
      by (rule f)
  qed
qed

lemma line_sync:
  "(parseTSV_line_heap up out H line = Some H \<and> parseTSV_line up idx line = idx)
   \<or> (\<exists>key e. length key = 2
         \<and> parseTSV_line_heap up out H line = heap_store out key e H
         \<and> parseTSV_line up idx line = push_entry key e (ensure_key key idx))"
  by (auto simp: parseTSV_line_heap_def parseTSV_line_def Let_def split: prod.splits)

lemma rep_line:
  assumes r: "rep n out H L"
  shows "\<exists>H' L'. parseTSV_line_heap up out H line = Some H' \<and> rep n out H' L'
           \<and> layout_index L' = parseTSV_line up (layout_index L) line
           \<and> frame n H H'"
  using line_sync [of up out H line "layout_index L"]
proof (elim disjE conjE exE)
  assume "parseTSV_line_heap up out H line = Some H"
    and "parseTSV_line up (layout_index L) line = layout_index L"
  with r frame_refl [of n H] show ?thesis
    by auto
next
  fix key e
  assume "length key = 2"
    and "parseTSV_line_heap up out H line = heap_store out key e H"
    and "parseTSV_line up (layout_index L) line = push_entry key e (ensure_key key (layout_index L))"
  with rep_store [OF r, of key e] show ?thesis
    by simp
qed

lemma rep_loop:
  assumes "rep n out H L"
  shows "\<exists>H' L'. parseTSV_loop_heap up out H lines = Some H' \<and> rep n out H' L'
           \<and> layout_index L' = parseTSV_loop up (layout_index L) lines
           \<and> frame n H H'"
  using assms
proof (induction lines arbitrary: H L)
  case Nil
  then show ?case
    using frame_refl [of n H] by auto
next
  case (Cons line lines)
  from rep_line [OF Cons.prems, of up line]
  obtain H1 L1 where s1: "parseTSV_line_heap up out H line = Some H1"
    and r1: "rep n out H1 L1"
    and i1: "layout_index L1 = parseTSV_line up (layout_index L) line"
    and f1: "frame n H H1"
    by blast
  from Cons.IH [OF r1]
  obtain H2 L2 where s2: "parseTSV_loop_heap up out H1 lines = Some H2"
    and r2: "rep n out H2 L2"
    and i2: "layout_index L2 = parseTSV_loop up (layout_index L1) lines"
    and f2: "frame n H1 H2"
    by blast
  from s1 s2 r2 i2 i1 frame_trans [OF f1 f2] show ?case
    by auto
qed

lemma parseTSV_heap_rep:
  "\<exists>H' L. parseTSV_heap up t h = Some (length h, H') \<and> rep (length h) (length h) H' L
       \<and> layout_index L = parseTSV up t \<and> frame (length h) h H'"
proof -
  from rep_loop [OF rep_initial [of h], where up = up and lines = "split_on LF t"]
  obtain H' L where s: "parseTSV_loop_heap up (length h) (h @ [Object []]) (split_on LF t) = Some H'"
    and r: "rep (length h) (length h) H' L"
    and i: "layout_index L = parseTSV_loop up (layout_index []) (split_on LF t)"
    and f: "frame (length h) (h @ [Object []]) H'"
    by blast
  have "frame (length h) h (h @ [Object []])"
    by (simp add: frame_def nth_append)
  from frame_trans [OF this f] s r i show ?thesis
    by (auto simp: parseTSV_heap_def alloc_def parseTSV_def layout_index_def)
qed

text \<open>
  C9. \<open>parseTSV\<close> is deterministic and free of side effects. Started on any heap \<open>h\<close>
  it returns, without throwing, a reference \<open>out1\<close> to a new object and leaves every cell
  of \<open>h\<close> as it was; the Index this reference denotes is \<open>parseTSV up t\<close>, a function
  of the text alone, whatever the heap held. Parsing the same text a second time, on
  the heap the first parse left, returns another reference \<open>out2\<close>, different from the
  first, and again changes no cell that existed: in the final heap both references
  denote the same Index, with equal keys and under each key an equal sequence of
  (note, value) entries. (No line of \<open>parseTSV\<close> can throw: \<open>out[key]\<close> is an array
  whenever \<open>push\<close> is called on it.)
\<close>

theorem parseTSV_twice:
  "\<exists>out1 h1 out2 h2.
      parseTSV_heap up t h = Some (out1, h1)
    \<and> parseTSV_heap up t h1 = Some (out2, h2)
    \<and> take (length h) h1 = h
    \<and> take (length h1) h2 = h1
    \<and> out1 \<noteq> out2
    \<and> read_index h1 out1 = Some (parseTSV up t)
    \<and> read_index h2 out1 = Some (parseTSV up t)
    \<and> read_index h2 out2 = Some (parseTSV up t)"
proof -
  from parseTSV_heap_rep [where h = h and up = up and t = t]
  obtain h1 L1 where s1: "parseTSV_heap up t h = Some (length h, h1)"
    and r1: "rep (length h) (length h) h1 L1"
    and i1: "layout_index L1 = parseTSV up t"
    and f1: "frame (length h) h h1"
    by blast
  from parseTSV_heap_rep [where h = h1 and up = up and t = t]
  obtain h2 L2 where s2: "parseTSV_heap up t h1 = Some (length h1, h2)"
    and r2: "rep (length h1) (length h1) h2 L2"
    and i2: "layout_index L2 = parseTSV up t"
    and f2: "frame (length h1) h1 h2"
    by blast
  have lt: "length h \<noteq> length h1"
    using r1 by (simp add: rep_def)
  have r12: "rep (length h) (length h) h2 L1"
    using r1 f2 by (auto intro: rep_extend simp: frame_def)
  have "read_index h1 (length h) = Some (parseTSV up t)"
    using rep_read [OF r1] i1 by simp
  moreover have "read_index h2 (length h) = Some (parseTSV up t)"
    using rep_read [OF r12] i1 by simp
  moreover have "read_index h2 (length h1) = Some (parseTSV up t)"
    using rep_read [OF r2] i2 by simp
  ultimately show ?thesis
    using s1 s2 lt frame_take [OF f1] frame_take [OF f2] by blast
qed

theorem parseTSV_twice_witness:
  "(\<exists>out1 h1 out2 h2.
      parseTSV_heap ascii_upper two_lines [] = Some (out1, h1)
    \<and> parseTSV_heap ascii_upper two_lines h1 = Some (out2, h2)
    \<and> take (length ([] :: heap)) h1 = []
    \<and> take (length h1) h2 = h1
    \<and> out1 \<noteq> out2
    \<and> read_index h1 out1 = Some (parseTSV ascii_upper two_lines)
    \<and> read_index h2 out1 = Some (parseTSV ascii_upper two_lines)
    \<and> read_index h2 out2 = Some (parseTSV ascii_upper two_lines))
   \<and> parseTSV ascii_upper two_lines
       = [(str ''AB'', [(str ''note1'', str ''valueX''), ([], str ''valueY'')])]
   \<and> parseTSV_heap ascii_upper two_lines []
       = Some (0, [Object [(str ''AB'', Ref 1)],
                   Array [Ref 2, Ref 3],
                   Array [Str (str ''note1''), Str (str ''valueX'')],
                   Array [Str [], Str (str ''valueY'')]])"
proof (intro conjI)
  show "\<exists>out1 h1 out2 h2.
      parseTSV_heap ascii_upper two_lines [] = Some (out1, h1)
    \<and> parseTSV_heap ascii_upper two_lines h1 = Some (out2, h2)
    \<and> take (length ([] :: heap)) h1 = []
    \<and> take (length h1) h2 = h1
    \<and> out1 \<noteq> out2
    \<and> read_index h1 out1 = Some (parseTSV ascii_upper two_lines)
    \<and> read_index h2 out1 = Some (parseTSV ascii_upper two_lines)
    \<and> read_index h2 out2 = Some (parseTSV ascii_upper two_lines)"
    by (rule parseTSV_twice)
  show "parseTSV ascii_upper two_lines
       = [(str ''AB'', [(str ''note1'', str ''valueX''), ([], str ''valueY'')])]"
    by code_simp
  show "parseTSV_heap ascii_upper two_lines []
       = Some (0, [Object [(str ''AB'', Ref 1)],
                   Array [Ref 2, Ref 3],
                   Array [Str (str ''note1''), Str (str ''valueX'')],
                   Array [Str [], Str (str ''valueY'')]])"
    by code_simp
qed

end
